theory Spec2Isabelle
  imports Complex_Main "HOL-Library.Multiset" "HOL-Library.Sublist" "HOL-Library.Product_Lexorder"
begin

section \<open>Data model of the graph retriever\<close>

text \<open>
  The dataclasses of \<^verbatim>\<open>src/retrieval/graph_retriever.py\<close>. Field names carry a short
  prefix, since several dataclasses share names such as \<^verbatim>\<open>title\<close>. Python's \<^verbatim>\<open>int\<close> is
  \<^typ>\<open>int\<close>. The field \<^verbatim>\<open>text\<close> of an example is declared \<^verbatim>\<open>str\<close>, but the constructor
  call stores whatever the record holds, so the model keeps it optional.
\<close>

record RetrievedConcept =
  rc_title :: string
  rc_definition :: string
  rc_difficulty :: string
  rc_depth :: int
  rc_relation_to_seed :: string
  rc_seed_concept :: string

record RetrievedResource =
  rr_url :: string
  rr_resource_type :: string
  rr_title :: string
  rr_concepts_explained :: "string list"
  rr_page_numbers :: "int list option"
  rr_timecodes :: "(string \<times> string) list option"

record RetrievedExample =
  re_text :: "string option"
  re_example_type :: string
  re_concept :: string
  re_source_url :: string

record Subgraph =
  sg_seed_concepts :: "string list"
  sg_concepts :: "RetrievedConcept list"
  sg_resources :: "RetrievedResource list"
  sg_examples :: "RetrievedExample list"
  sg_prereq_chain :: "string list list"

section \<open>The property graph behind the session\<close>

text \<open>
  The Neo4j store that the Cypher queries read. A concept node is identified by its title,
  the key every query matches on; \<^verbatim>\<open>definition\<close> and \<^verbatim>\<open>difficulty\<close> may be absent (null).
  Relationships between concepts are kept in a list, so parallel edges are possible and
  the position in the list is the identity of a relationship. The rows of the resource
  and example queries are supplied by the store as they come back from \<^verbatim>\<open>session.run\<close>.
\<close>

datatype rel_type = PREREQ_OF | IS_A | PART_OF | SIBLING | CONTRASTS_WITH

record concept_node =
  cn_title :: string
  cn_definition :: "string option"
  cn_difficulty :: "string option"

record relationship =
  r_src :: string
  r_type :: rel_type
  r_dst :: string

record resource_row =
  rw_url :: string
  rw_resource_type :: "string option"
  rw_concepts :: "string list"

record example_row =
  ew_text :: "string option"
  ew_example_type :: "string option"
  ew_concept :: string
  ew_source_url :: "string option"

record graph_db =
  concept_nodes :: "concept_node list"
  relationships :: "relationship list"
  resource_rows :: "string list \<Rightarrow> resource_row list"
  example_rows :: "string list \<Rightarrow> int \<Rightarrow> example_row list"

text \<open>
  The one way a call fails in this model: Neo4j rejects the text of a query. Failures of
  the connection are outside the model.
\<close>

datatype error = CypherSyntaxError

text \<open>\<^verbatim>\<open>(c:Concept)\<close> with a given title: some concept node carries it.\<close>

definition is_concept :: "graph_db \<Rightarrow> string \<Rightarrow> bool" where
  "is_concept g t = (t \<in> set (map cn_title (concept_nodes g)))"

text \<open>Python's \<^verbatim>\<open>x or d\<close> on an optional string: \<^verbatim>\<open>None\<close> and the empty string are falsy.\<close>

definition or_default :: "string option \<Rightarrow> string \<Rightarrow> string" where
  "or_default x d = (case x of None \<Rightarrow> d | Some s \<Rightarrow> if s = [] then d else s)"

section \<open>Topological order (Kahn's algorithm)\<close>

text \<open>
  The query of \<^verbatim>\<open>get_topological_order\<close>: the \<^verbatim>\<open>PREREQ_OF\<close> relationships between
  concept nodes whose titles are both among the given titles, as (prereq, dependent).
\<close>

definition internal_edges :: "graph_db \<Rightarrow> string list \<Rightarrow> (string \<times> string) list" where
  "internal_edges g titles =
     map (\<lambda>r. (r_src r, r_dst r))
       (filter (\<lambda>r. r_type r = PREREQ_OF \<and> is_concept g (r_src r) \<and> is_concept g (r_dst r)
                  \<and> r_src r \<in> set titles \<and> r_dst r \<in> set titles)
          (relationships g))"

text \<open>
  \<^verbatim>\<open>graph\<close> is a \<^verbatim>\<open>defaultdict(list)\<close>: an insertion-ordered association list whose missing
  keys read as the empty list. \<^verbatim>\<open>in_degree\<close> is a \<^verbatim>\<open>defaultdict(int)\<close>: a total function
  whose missing keys read as 0.
\<close>

fun graph_append :: "(string \<times> string list) list \<Rightarrow> string \<Rightarrow> string \<Rightarrow> (string \<times> string list) list" where
  "graph_append [] p d = [(p, [d])]"
| "graph_append ((k, ds) # g) p d =
     (if k = p then (k, ds @ [d]) # g else (k, ds) # graph_append g p d)"

definition graph_get :: "(string \<times> string list) list \<Rightarrow> string \<Rightarrow> string list" where
  "graph_get g n = (case map_of g n of None \<Rightarrow> [] | Some ds \<Rightarrow> ds)"

definition build_graph :: "(string \<times> string) list \<Rightarrow> (string \<times> string list) list" where
  "build_graph edges = fold (\<lambda>(prereq, dependent) g. graph_append g prereq dependent) edges []"

definition build_in_degree :: "string list \<Rightarrow> (string \<times> string) list \<Rightarrow> (string \<Rightarrow> int)" where
  "build_in_degree titles edges =
     fold (\<lambda>(prereq, dependent) m. m(dependent := m dependent + 1)) edges
       (fold (\<lambda>t m. m(t := 0)) titles (\<lambda>_. 0))"

text \<open>The inner \<^verbatim>\<open>for neighbor in graph[node]\<close> loop.\<close>

fun visit_neighbors :: "(string \<Rightarrow> int) \<Rightarrow> string list \<Rightarrow> string list \<Rightarrow> (string \<Rightarrow> int) \<times> string list" where
  "visit_neighbors in_degree queue [] = (in_degree, queue)"
| "visit_neighbors in_degree queue (neighbor # rest) =
     (let in_degree' = in_degree(neighbor := in_degree neighbor - 1) in
      visit_neighbors in_degree'
        (if in_degree' neighbor = 0 then queue @ [neighbor] else queue) rest)"

text \<open>
  The measure of the queue loop: the titles that occur as a neighbour in \<^verbatim>\<open>graph\<close> and
  still have a positive in-degree can each be enqueued at most once more.
\<close>

definition targets :: "(string \<times> string list) list \<Rightarrow> string set" where
  "targets g = set (concat (map snd g))"

definition pending :: "(string \<times> string list) list \<Rightarrow> (string \<Rightarrow> int) \<Rightarrow> nat" where
  "pending g in_degree = card {t \<in> targets g. 0 < in_degree t}"

lemma finite_targets: "finite (targets g)"
  by (simp add: targets_def)

lemma graph_get_targets: "set (graph_get g n) \<subseteq> targets g"
proof (cases "map_of g n")
  case None
  then show ?thesis by (simp add: graph_get_def)
next
  case (Some ds)
  then have "(n, ds) \<in> set g" by (rule map_of_SomeD)
  then have "set ds \<subseteq> targets g" by (force simp: targets_def)
  with Some show ?thesis by (simp add: graph_get_def)
qed

lemma visit_neighbors_measure:
  assumes "set ns \<subseteq> targets g"
    and "visit_neighbors in_degree queue ns = (in_degree', queue')"
  shows "length queue' + pending g in_degree' \<le> length queue + pending g in_degree"
  using assms
proof (induction ns arbitrary: in_degree queue)
  case Nil
  then show ?case by simp
next
  case (Cons n ns)
  let ?d = "in_degree(n := in_degree n - 1)"
  let ?q = "if ?d n = 0 then queue @ [n] else queue"
  from Cons.prems have n: "n \<in> targets g" and ns: "set ns \<subseteq> targets g" by auto
  from Cons.prems have run: "visit_neighbors ?d ?q ns = (in_degree', queue')"
    by (simp add: Let_def)
  have step: "length ?q + pending g ?d \<le> length queue + pending g in_degree"
  proof (cases "?d n = 0")
    case True
    then have one: "in_degree n = 1" by simp
    have eq: "{t \<in> targets g. 0 < ?d t} = {t \<in> targets g. 0 < in_degree t} - {n}"
      using one by auto
    have "n \<in> {t \<in> targets g. 0 < in_degree t}" using n one by simp
    moreover have "finite {t \<in> targets g. 0 < in_degree t}" using finite_targets by simp
    ultimately have "Suc (card ({t \<in> targets g. 0 < in_degree t} - {n})) = card {t \<in> targets g. 0 < in_degree t}"
      by (rule card_Suc_Diff1[rotated])
    with True eq show ?thesis by (simp add: pending_def)
  next
    case False
    have "{t \<in> targets g. 0 < ?d t} \<subseteq> {t \<in> targets g. 0 < in_degree t}" by auto
    then have "card {t \<in> targets g. 0 < ?d t} \<le> card {t \<in> targets g. 0 < in_degree t}"
      using finite_targets by (intro card_mono) simp_all
    with False show ?thesis by (simp add: pending_def)
  qed
  from Cons.IH[OF ns run] step show ?case by linarith
qed

text \<open>The \<^verbatim>\<open>while queue\<close> loop.\<close>

function kahn_loop :: "(string \<times> string list) list \<Rightarrow> (string \<Rightarrow> int) \<Rightarrow> string list \<Rightarrow> string list \<Rightarrow> string list" where
  "kahn_loop graph in_degree [] result = result"
| "kahn_loop graph in_degree (node # queue) result =
     (case visit_neighbors in_degree queue (graph_get graph node) of
        (in_degree', queue') \<Rightarrow> kahn_loop graph in_degree' queue' (result @ [node]))"
  by pat_completeness auto
termination
  apply (relation "measure (\<lambda>(graph, in_degree, queue, result). length queue + pending graph in_degree)")
   apply simp
  apply (auto dest!: sym[of "(_, _)"] visit_neighbors_measure[OF graph_get_targets, rotated])
  done

text \<open>The closing loop: titles not yet placed are appended in input order.\<close>

definition append_remaining :: "string list \<Rightarrow> string list \<Rightarrow> string list" where
  "append_remaining titles result =
     fold (\<lambda>t res. if t \<in> set res then res else res @ [t]) titles result"

definition kahn_phase :: "string list \<Rightarrow> (string \<times> string) list \<Rightarrow> string list" where
  "kahn_phase titles edges =
     (let in_degree = build_in_degree titles edges;
          graph = build_graph edges;
          queue = filter (\<lambda>t. in_degree t = 0) titles
      in kahn_loop graph in_degree queue [])"

definition get_topological_order :: "graph_db \<Rightarrow> RetrievedConcept list \<Rightarrow> string list" where
  "get_topological_order g concepts =
     (let titles = map rc_title concepts;
          edges = internal_edges g titles;
          result = kahn_phase titles edges
      in append_remaining titles result)"

text \<open>Python's \<^verbatim>\<open>list.index\<close> for an element of the list: the position of its first occurrence.\<close>

definition index_of :: "'a list \<Rightarrow> 'a \<Rightarrow> nat" where
  "index_of xs x = length (takeWhile (\<lambda>y. y \<noteq> x) xs)"

section \<open>Cypher pattern matching on the graph\<close>

text \<open>
  A variable-length pattern \<^verbatim>\<open>-[:T*1..d]-\<close> matches every trail of 1 to \<^verbatim>\<open>d\<close> relationships:
  no relationship occurs twice in one path, nodes may repeat. A trail is explored from the
  anchored node; each hop records the position of the relationship taken and the node
  reached. \<^verbatim>\<open>step r cur\<close> lists the nodes reached from \<^verbatim>\<open>cur\<close> over relationship \<^verbatim>\<open>r\<close>.
\<close>

fun trails :: "(relationship \<Rightarrow> string \<Rightarrow> string list) \<Rightarrow> relationship list \<Rightarrow> nat list \<Rightarrow> nat \<Rightarrow> string
                 \<Rightarrow> (nat \<times> string) list list" where
  "trails step rels used 0 cur = [[]]"
| "trails step rels used (Suc k) cur =
     concat (map (\<lambda>i. if i \<in> set used then []
                       else concat (map (\<lambda>nxt. map (\<lambda>p. (i, nxt) # p) (trails step rels (i # used) k nxt))
                                      (step (rels ! i) cur)))
                 [0..<length rels])"

text \<open>
  The trails of 1 to \<^verbatim>\<open>d\<close> hops from a start node, shortest first. An upper bound
  below 1 matches nothing. The bound is spliced into the query text with
  \<^verbatim>\<open>str(depth)\<close>; a negative number gives \<^verbatim>\<open>*1..-1\<close>, which is not a range literal, so
  each query below is rejected (the call raises) when its bound is negative.
\<close>

definition var_length_paths :: "(relationship \<Rightarrow> string \<Rightarrow> string list) \<Rightarrow> relationship list \<Rightarrow> int \<Rightarrow> string
                 \<Rightarrow> (nat \<times> string) list list" where
  "var_length_paths step rels d start = concat (map (\<lambda>k. trails step rels [] k start) [1..<Suc (nat d)])"

text \<open>\<^verbatim>\<open>(prereq)-[:PREREQ_OF]->(cur)\<close>, walked from \<^verbatim>\<open>cur\<close> back to the prerequisite.\<close>

definition prereq_step :: "relationship \<Rightarrow> string \<Rightarrow> string list" where
  "prereq_step r cur = (if r_type r = PREREQ_OF \<and> r_dst r = cur then [r_src r] else [])"

text \<open>\<^verbatim>\<open>(cur)-[:IS_A|PART_OF|SIBLING|CONTRASTS_WITH]-(other)\<close>, in either direction.\<close>

definition peer_step :: "relationship \<Rightarrow> string \<Rightarrow> string list" where
  "peer_step r cur =
     (if r_type r \<in> {IS_A, PART_OF, SIBLING, CONTRASTS_WITH}
      then (if r_src r = cur then [r_dst r] else []) @ (if r_dst r = cur then [r_src r] else [])
      else [])"

text \<open>\<^verbatim>\<open>MATCH (c:Concept {title: t})\<close>.\<close>

definition match_concept :: "graph_db \<Rightarrow> string \<Rightarrow> concept_node list" where
  "match_concept g t = filter (\<lambda>c. cn_title c = t) (concept_nodes g)"

text \<open>\<^verbatim>\<open>RETURN DISTINCT\<close>: each row once, in the order of first appearance.\<close>

definition distinct_rows :: "'a list \<Rightarrow> 'a list" where
  "distinct_rows rows = fold (\<lambda>r acc. if r \<in> set acc then acc else acc @ [r]) rows []"

text \<open>Cypher's \<^verbatim>\<open>type(r)\<close> and Python's \<^verbatim>\<open>str.lower\<close> on such a name.\<close>

fun type_name :: "rel_type \<Rightarrow> string" where
  "type_name PREREQ_OF = ''PREREQ_OF''"
| "type_name IS_A = ''IS_A''"
| "type_name PART_OF = ''PART_OF''"
| "type_name SIBLING = ''SIBLING''"
| "type_name CONTRASTS_WITH = ''CONTRASTS_WITH''"

definition lower_char :: "char \<Rightarrow> char" where
  "lower_char c = (if (65::nat) \<le> of_char c \<and> of_char c \<le> (90::nat) then char_of (of_char c + (32::nat)) else c)"

definition lower :: "string \<Rightarrow> string" where
  "lower s = map lower_char s"

section \<open>The queries of the expansion stages\<close>

subsection \<open>Seed concepts\<close>

definition get_seed_concepts :: "graph_db \<Rightarrow> string list \<Rightarrow> RetrievedConcept list" where
  "get_seed_concepts g titles =
     map (\<lambda>record.
            \<lparr>rc_title = cn_title record,
             rc_definition = or_default (cn_definition record) [],
             rc_difficulty = or_default (cn_difficulty record) ''unknown'',
             rc_depth = 0,
             rc_relation_to_seed = ''seed'',
             rc_seed_concept = cn_title record\<rparr>)
       (concat (map (match_concept g) titles))"

subsection \<open>Prerequisites\<close>

record prereq_row =
  pr_title :: string
  pr_definition :: "string option"
  pr_difficulty :: "string option"
  pr_depth :: int
  pr_seed_concept :: string

text \<open>
  The rows bound by the two \<^verbatim>\<open>MATCH\<close> clauses and the \<^verbatim>\<open>WITH\<close>: the prerequisite node
  (the far end of the trail, which must be a concept), \<^verbatim>\<open>length(path)\<close> and the seed
  title; one row per matched seed node and path.
\<close>

definition prereq_match_rows :: "graph_db \<Rightarrow> string \<Rightarrow> (nat \<times> string) list \<Rightarrow> (concept_node \<times> int \<times> string) list" where
  "prereq_match_rows g seedTitle path =
     (case rev path of [] \<Rightarrow> []
      | (i, far) # _ \<Rightarrow> map (\<lambda>prereq. (prereq, int (length path), seedTitle)) (match_concept g far))"

definition prereq_matches :: "graph_db \<Rightarrow> string list \<Rightarrow> int \<Rightarrow> error + (concept_node \<times> int \<times> string) list" where
  "prereq_matches g titles d =
     (if d < 0 then Inl CypherSyntaxError
      else Inr (concat (map (\<lambda>seedTitle.
             concat (map (\<lambda>seed.
               concat (map (prereq_match_rows g seedTitle)
                 (var_length_paths prereq_step (relationships g) d seedTitle)))
               (match_concept g seedTitle)))
           titles)))"

text \<open>
  \<^verbatim>\<open>RETURN DISTINCT ..., min(dist) AS depth, ... ORDER BY depth\<close>: the rows are grouped
  by the other returned columns, each group yields its least distance, and the groups are
  sorted by it.
\<close>

definition prereq_group_row :: "(concept_node \<times> int \<times> string) list \<Rightarrow> concept_node \<times> string \<Rightarrow> prereq_row" where
  "prereq_group_row ms key =
     (case key of (prereq, seedTitle) \<Rightarrow>
        \<lparr>pr_title = cn_title prereq,
         pr_definition = cn_definition prereq,
         pr_difficulty = cn_difficulty prereq,
         pr_depth = min_list (map (\<lambda>(p, hops, s). hops)
                      (filter (\<lambda>(p, hops, s). (p, s) = key) ms)),
         pr_seed_concept = seedTitle\<rparr>)"

definition prereq_rows :: "graph_db \<Rightarrow> string list \<Rightarrow> int \<Rightarrow> error + prereq_row list" where
  "prereq_rows g titles d =
     (case prereq_matches g titles d of
        Inl e \<Rightarrow> Inl e
      | Inr ms \<Rightarrow>
          Inr (sort_key pr_depth
                 (map (prereq_group_row ms)
                    (distinct_rows (map (\<lambda>(p, hops, s). (p, s)) ms)))))"

definition get_prerequisites :: "graph_db \<Rightarrow> string list \<Rightarrow> int \<Rightarrow> error + RetrievedConcept list" where
  "get_prerequisites g seed_titles depth =
     (case prereq_rows g seed_titles depth of
        Inl e \<Rightarrow> Inl e
      | Inr result \<Rightarrow>
          Inr (map (\<lambda>record.
                 \<lparr>rc_title = pr_title record,
                  rc_definition = or_default (pr_definition record) [],
                  rc_difficulty = or_default (pr_difficulty record) ''unknown'',
                  rc_depth = pr_depth record,
                  rc_relation_to_seed = ''prerequisite'',
                  rc_seed_concept = pr_seed_concept record\<rparr>)
               result))"

subsection \<open>Related concepts\<close>

record related_row =
  lr_title :: string
  lr_definition :: "string option"
  lr_difficulty :: "string option"
  lr_relation_type :: string
  lr_seed_concept :: string

text \<open>
  One row per matched trail and related node whose title differs from the seed title;
  \<^verbatim>\<open>type(r[0])\<close> is the type of the first relationship of the trail, the one at the seed.
\<close>

definition related_match_rows :: "graph_db \<Rightarrow> string \<Rightarrow> (nat \<times> string) list \<Rightarrow> related_row list" where
  "related_match_rows g seedTitle path =
     (case path of [] \<Rightarrow> []
      | (r0, _) # _ \<Rightarrow>
          map (\<lambda>related.
                 \<lparr>lr_title = cn_title related,
                  lr_definition = cn_definition related,
                  lr_difficulty = cn_difficulty related,
                  lr_relation_type = type_name (r_type (relationships g ! r0)),
                  lr_seed_concept = seedTitle\<rparr>)
            (filter (\<lambda>related. cn_title related \<noteq> seedTitle)
               (match_concept g (snd (last path)))))"

definition related_rows :: "graph_db \<Rightarrow> string list \<Rightarrow> int \<Rightarrow> error + related_row list" where
  "related_rows g titles d =
     (if d < 0 then Inl CypherSyntaxError
      else Inr (distinct_rows (concat (map (\<lambda>seedTitle.
             concat (map (\<lambda>seed.
               concat (map (related_match_rows g seedTitle)
                 (var_length_paths peer_step (relationships g) d seedTitle)))
               (match_concept g seedTitle)))
           titles))))"

definition get_related_concepts :: "graph_db \<Rightarrow> string list \<Rightarrow> int \<Rightarrow> error + RetrievedConcept list" where
  "get_related_concepts g seed_titles depth =
     (case related_rows g seed_titles depth of
        Inl e \<Rightarrow> Inl e
      | Inr result \<Rightarrow>
          Inr (map (\<lambda>record.
                 \<lparr>rc_title = lr_title record,
                  rc_definition = or_default (lr_definition record) [],
                  rc_difficulty = or_default (lr_difficulty record) ''unknown'',
                  rc_depth = 1,
                  rc_relation_to_seed = lower (lr_relation_type record),
                  rc_seed_concept = lr_seed_concept record\<rparr>)
               result))"

subsection \<open>Deduplication\<close>

text \<open>
  \<^verbatim>\<open>seen\<close> is a \<^verbatim>\<open>dict\<close>: an association list in insertion order. Assigning to a key that
  is present replaces the value and keeps the key's position.
\<close>

fun dict_set :: "('k \<times> 'v) list \<Rightarrow> 'k \<Rightarrow> 'v \<Rightarrow> ('k \<times> 'v) list" where
  "dict_set [] k v = [(k, v)]"
| "dict_set ((k', v') # d) k v = (if k' = k then (k, v) # d else (k', v') # dict_set d k v)"

definition seen_step :: "RetrievedConcept \<Rightarrow> (string \<times> RetrievedConcept) list \<Rightarrow> (string \<times> RetrievedConcept) list" where
  "seen_step c seen =
     (case map_of seen (rc_title c) of
        None \<Rightarrow> dict_set seen (rc_title c) c
      | Some old \<Rightarrow> if rc_depth c < rc_depth old then dict_set seen (rc_title c) c else seen)"

text \<open>Python's \<^verbatim>\<open>xs[:n]\<close>: a negative \<^verbatim>\<open>n\<close> counts from the end.\<close>

definition slice_to :: "'a list \<Rightarrow> int \<Rightarrow> 'a list" where
  "slice_to xs n = (if 0 \<le> n then take (nat n) xs else take (nat (int (length xs) + n)) xs)"

definition deduplicate_concepts :: "RetrievedConcept list \<Rightarrow> int \<Rightarrow> RetrievedConcept list" where
  "deduplicate_concepts concepts max_concepts =
     (let seen = fold seen_step concepts [];
          sorted_concepts = sort_key rc_depth (map snd seen)
      in slice_to sorted_concepts max_concepts)"

subsection \<open>Prerequisite chains\<close>

text \<open>
  The rows of the chain query for one seed: \<^verbatim>\<open>[n IN nodes(path) | n.title]\<close> for every
  matched path, from the far prerequisite to the seed, then
  \<^verbatim>\<open>ORDER BY length(path) DESC LIMIT 1\<close>.
\<close>

definition chain_titles :: "string \<Rightarrow> (nat \<times> string) list \<Rightarrow> string list" where
  "chain_titles seed path = rev (map snd path) @ [seed]"

definition chain_match_rows :: "graph_db \<Rightarrow> (nat \<times> string) list \<Rightarrow> (nat \<times> string) list list" where
  "chain_match_rows g path =
     (case rev path of [] \<Rightarrow> []
      | (i, far) # _ \<Rightarrow> map (\<lambda>prereq. path) (match_concept g far))"

definition chain_matches :: "graph_db \<Rightarrow> int \<Rightarrow> string \<Rightarrow> (nat \<times> string) list list" where
  "chain_matches g d seed =
     concat (map (\<lambda>seed_node.
        concat (map (chain_match_rows g)
          (var_length_paths prereq_step (relationships g) d seed)))
       (match_concept g seed))"

definition chain_rows :: "graph_db \<Rightarrow> int \<Rightarrow> string \<Rightarrow> error + string list list" where
  "chain_rows g d seed =
     (if d < 0 then Inl CypherSyntaxError
      else Inr (map (chain_titles seed)
                  (take 1 (sort_key (\<lambda>path. - int (length path)) (chain_matches g d seed)))))"

fun get_prereq_chains :: "graph_db \<Rightarrow> string list \<Rightarrow> int \<Rightarrow> error + string list list" where
  "get_prereq_chains g [] depth = Inr []"
| "get_prereq_chains g (seed # seed_titles) depth =
     (case chain_rows g depth seed of
        Inl e \<Rightarrow> Inl e
      | Inr result \<Rightarrow>
          (case get_prereq_chains g seed_titles depth of
             Inl e \<Rightarrow> Inl e
           | Inr chains' \<Rightarrow>
               Inr ((case result of [] \<Rightarrow> [seed] | record # _ \<Rightarrow> record) # chains')))"

subsection \<open>Resources and examples\<close>

fun resources_loop :: "resource_row list \<Rightarrow> string list \<Rightarrow> RetrievedResource list" where
  "resources_loop [] seen_urls = []"
| "resources_loop (record # result) seen_urls =
     (if rw_url record \<in> set seen_urls then resources_loop result seen_urls
      else \<lparr>rr_url = rw_url record,
            rr_resource_type = or_default (rw_resource_type record) ''unknown'',
            rr_title = rw_url record,
            rr_concepts_explained = rw_concepts record,
            rr_page_numbers = None,
            rr_timecodes = None\<rparr> # resources_loop result (rw_url record # seen_urls))"

definition get_resources :: "graph_db \<Rightarrow> string list \<Rightarrow> RetrievedResource list" where
  "get_resources g concept_titles = resources_loop (resource_rows g concept_titles) []"

definition get_examples :: "graph_db \<Rightarrow> string list \<Rightarrow> int \<Rightarrow> RetrievedExample list" where
  "get_examples g concept_titles max_per_concept =
     map (\<lambda>record.
            \<lparr>re_text = ew_text record,
             re_example_type = or_default (ew_example_type record) ''unknown'',
             re_concept = ew_concept record,
             re_source_url = or_default (ew_source_url record) []\<rparr>)
       (example_rows g concept_titles max_per_concept)"

section \<open>Expanding seeds into a subgraph\<close>

definition expand_seeds :: "graph_db \<Rightarrow> string list \<Rightarrow> int \<Rightarrow> int \<Rightarrow> int \<Rightarrow> int \<Rightarrow> error + Subgraph" where
  "expand_seeds g seed_titles prereq_depth related_depth max_concepts max_examples_per_concept =
     (let concepts = get_seed_concepts g seed_titles in
      case get_prerequisites g seed_titles prereq_depth of
        Inl e \<Rightarrow> Inl e
      | Inr prereqs \<Rightarrow>
      (case get_related_concepts g seed_titles related_depth of
        Inl e \<Rightarrow> Inl e
      | Inr related \<Rightarrow>
      (let concepts = deduplicate_concepts (concepts @ prereqs @ related) max_concepts in
       case get_prereq_chains g seed_titles prereq_depth of
        Inl e \<Rightarrow> Inl e
      | Inr prereq_chains \<Rightarrow>
      (let concept_titles = map rc_title concepts;
           resources = get_resources g concept_titles;
           examples = get_examples g concept_titles max_examples_per_concept
       in Inr \<lparr>sg_seed_concepts = seed_titles,
                sg_concepts = concepts,
                sg_resources = resources,
                sg_examples = examples,
                sg_prereq_chain = prereq_chains\<rparr>))))"

section \<open>The hybrid retriever\<close>

text \<open>
  A semantic match is the dictionary built by \<^verbatim>\<open>ConceptEmbedder.search\<close>; scores are carried
  along and never computed with. The embedder is its \<^verbatim>\<open>search\<close> function.
\<close>

record semantic_match =
  sm_title :: string
  sm_definition :: string
  sm_difficulty :: string
  sm_score :: real
  sm_full_text :: string

record RetrievalResult =
  res_query :: string
  res_semantic_matches :: "semantic_match list"
  res_seed_concepts :: "string list"
  res_subgraph :: Subgraph
  res_ordered_concepts :: "string list"

record HybridRetriever =
  search :: "string \<Rightarrow> int \<Rightarrow> real \<Rightarrow> semantic_match list"
  graph_retriever :: graph_db

definition retrieve :: "HybridRetriever \<Rightarrow> string \<Rightarrow> int \<Rightarrow> real \<Rightarrow> int \<Rightarrow> int \<Rightarrow> int \<Rightarrow> int \<Rightarrow> error + RetrievalResult" where
  "retrieve self query top_k_semantic min_semantic_score prereq_depth related_depth max_concepts
       max_examples_per_concept =
     (let semantic_matches = search self query top_k_semantic min_semantic_score;
          seed_concepts = map sm_title semantic_matches
      in if seed_concepts = [] then
           Inr \<lparr>res_query = query,
                res_semantic_matches = [],
                res_seed_concepts = [],
                res_subgraph = \<lparr>sg_seed_concepts = [], sg_concepts = [], sg_resources = [],
                                sg_examples = [], sg_prereq_chain = []\<rparr>,
                res_ordered_concepts = []\<rparr>
         else
           (case expand_seeds (graph_retriever self) seed_concepts prereq_depth related_depth
                   max_concepts max_examples_per_concept of
              Inl e \<Rightarrow> Inl e
            | Inr subgraph \<Rightarrow>
                Inr \<lparr>res_query = query,
                     res_semantic_matches = semantic_matches,
                     res_seed_concepts = seed_concepts,
                     res_subgraph = subgraph,
                     res_ordered_concepts =
                       get_topological_order (graph_retriever self) (sg_concepts subgraph)\<rparr>))"

text \<open>
  \<^verbatim>\<open>**kwargs\<close> of \<^verbatim>\<open>retrieve_with_explicit_concepts\<close>: an absent key is \<^verbatim>\<open>None\<close>, and
  \<^verbatim>\<open>kwargs.get(key, default)\<close> supplies the default.
\<close>

record kwargs =
  kw_top_k_semantic :: "int option"
  kw_min_semantic_score :: "real option"
  kw_prereq_depth :: "int option"
  kw_related_depth :: "int option"
  kw_max_concepts :: "int option"
  kw_max_examples_per_concept :: "int option"

definition kwargs_get :: "'a option \<Rightarrow> 'a \<Rightarrow> 'a" where
  "kwargs_get v d = (case v of None \<Rightarrow> d | Some x \<Rightarrow> x)"

definition union_seeds :: "string list \<Rightarrow> semantic_match list \<Rightarrow> string list" where
  "union_seeds explicit_concepts semantic_matches =
     fold (\<lambda>match seed_concepts.
             if sm_title match \<in> set seed_concepts then seed_concepts
             else seed_concepts @ [sm_title match])
       semantic_matches explicit_concepts"

definition retrieve_with_explicit_concepts :: "HybridRetriever \<Rightarrow> string \<Rightarrow> string list \<Rightarrow> kwargs \<Rightarrow> error + RetrievalResult" where
  "retrieve_with_explicit_concepts self query explicit_concepts kw =
     (let semantic_matches = search self query (kwargs_get (kw_top_k_semantic kw) 3)
                               (kwargs_get (kw_min_semantic_score kw) (4 / 10));
          seed_concepts = union_seeds explicit_concepts semantic_matches
      in case expand_seeds (graph_retriever self) seed_concepts
                (kwargs_get (kw_prereq_depth kw) 2)
                (kwargs_get (kw_related_depth kw) 1)
                (kwargs_get (kw_max_concepts kw) 15)
                (kwargs_get (kw_max_examples_per_concept kw) 2) of
           Inl e \<Rightarrow> Inl e
         | Inr subgraph \<Rightarrow>
             Inr \<lparr>res_query = query,
                  res_semantic_matches = semantic_matches,
                  res_seed_concepts = seed_concepts,
                  res_subgraph = subgraph,
                  res_ordered_concepts =
                    get_topological_order (graph_retriever self) (sg_concepts subgraph)\<rparr>)"

section \<open>Example stores and concept lists\<close>

text \<open>Small concrete inputs on which the theorems below are exercised.\<close>

definition mk_concept :: "string \<Rightarrow> int \<Rightarrow> string \<Rightarrow> string \<Rightarrow> RetrievedConcept" where
  "mk_concept t d r s = \<lparr>rc_title = t, rc_definition = [], rc_difficulty = ''unknown'', rc_depth = d,
     rc_relation_to_seed = r, rc_seed_concept = s\<rparr>"

definition mk_node :: "string \<Rightarrow> concept_node" where
  "mk_node t = \<lparr>cn_title = t, cn_definition = None, cn_difficulty = None\<rparr>"

definition mk_edge :: "string \<Rightarrow> rel_type \<Rightarrow> string \<Rightarrow> relationship" where
  "mk_edge a t b = \<lparr>r_src = a, r_type = t, r_dst = b\<rparr>"

definition mk_store :: "concept_node list \<Rightarrow> relationship list \<Rightarrow> graph_db" where
  "mk_store ns rs = \<lparr>concept_nodes = ns, relationships = rs, resource_rows = (\<lambda>_. []), example_rows = (\<lambda>_ _. [])\<rparr>"

definition calculus_graph :: graph_db where
  "calculus_graph = mk_store [mk_node ''Gradient Descent'', mk_node ''Derivatives'', mk_node ''Calculus'']
     [mk_edge ''Derivatives'' PREREQ_OF ''Gradient Descent'', mk_edge ''Calculus'' PREREQ_OF ''Derivatives'']"

definition calculus_concepts :: "RetrievedConcept list" where
  "calculus_concepts = [mk_concept ''Gradient Descent'' 0 ''seed'' ''Gradient Descent'',
     mk_concept ''Derivatives'' 1 ''prerequisite'' ''Gradient Descent'',
     mk_concept ''Calculus'' 2 ''prerequisite'' ''Gradient Descent'']"

definition cycle_graph :: graph_db where
  "cycle_graph = mk_store [mk_node ''A'', mk_node ''B'', mk_node ''C'']
     [mk_edge ''A'' PREREQ_OF ''B'', mk_edge ''B'' PREREQ_OF ''A'']"

definition cycle_concepts :: "RetrievedConcept list" where
  "cycle_concepts = [mk_concept ''A'' 0 ''seed'' ''A'', mk_concept ''B'' 1 ''prerequisite'' ''A'', mk_concept ''C'' 1 ''sibling'' ''A'']"

definition duplicate_concepts :: "RetrievedConcept list" where
  "duplicate_concepts = [mk_concept ''A'' 0 ''seed'' ''A'', mk_concept ''A'' 0 ''seed'' ''A'',
      mk_concept ''B'' 0 ''seed'' ''B'', mk_concept ''B'' 0 ''seed'' ''B'']"

definition duplicate_graph :: graph_db where
  "duplicate_graph = mk_store [mk_node ''A'', mk_node ''B''] [mk_edge ''A'' PREREQ_OF ''B'']"

definition calculus_subgraph :: "RetrievedConcept list \<Rightarrow> Subgraph" where
  "calculus_subgraph cs = \<lparr>sg_seed_concepts = [''Gradient Descent''], sg_concepts = cs,
     sg_resources = [], sg_examples = [],
     sg_prereq_chain = [[''Calculus'', ''Derivatives'', ''Gradient Descent'']]\<rparr>"

definition peer_graph :: graph_db where
  "peer_graph = mk_store [mk_node ''A'', mk_node ''B'', mk_node ''C'']
     [mk_edge ''B'' IS_A ''A'', mk_edge ''C'' PART_OF ''B'']"

definition mk_match :: "string \<Rightarrow> real \<Rightarrow> semantic_match" where
  "mk_match t s = \<lparr>sm_title = t, sm_definition = [], sm_difficulty = ''unknown'', sm_score = s,
     sm_full_text = t\<rparr>"

definition silent_retriever :: HybridRetriever where
  "silent_retriever = \<lparr>search = (\<lambda>query top_k min_score. []), graph_retriever = calculus_graph\<rparr>"

definition calculus_retriever :: HybridRetriever where
  "calculus_retriever =
     \<lparr>search = (\<lambda>query top_k min_score.
                  [mk_match ''Gradient Descent'' (1 / 2), mk_match ''Derivatives'' (1 / 3)]),
      graph_retriever = calculus_graph\<rparr>"

definition no_kwargs :: kwargs where
  "no_kwargs = \<lparr>kw_top_k_semantic = None, kw_min_semantic_score = None, kw_prereq_depth = None,
     kw_related_depth = None, kw_max_concepts = None, kw_max_examples_per_concept = None\<rparr>"

definition explicit_result :: RetrievalResult where
  "explicit_result =
     \<lparr>res_query = ''q'',
      res_semantic_matches = [mk_match ''Gradient Descent'' (1 / 2), mk_match ''Derivatives'' (1 / 3)],
      res_seed_concepts = [''Derivatives'', ''Calculus'', ''Gradient Descent''],
      res_subgraph =
        \<lparr>sg_seed_concepts = [''Derivatives'', ''Calculus'', ''Gradient Descent''],
         sg_concepts = [mk_concept ''Derivatives'' 0 ''seed'' ''Derivatives'',
                        mk_concept ''Calculus'' 0 ''seed'' ''Calculus'',
                        mk_concept ''Gradient Descent'' 0 ''seed'' ''Gradient Descent''],
         sg_resources = [], sg_examples = [],
         sg_prereq_chain = [[''Calculus'', ''Derivatives''], [''Calculus''],
                            [''Calculus'', ''Derivatives'', ''Gradient Descent'']]\<rparr>,
      res_ordered_concepts = [''Calculus'', ''Derivatives'', ''Gradient Descent'']\<rparr>"

definition two_seed_subgraph :: Subgraph where
  "two_seed_subgraph =
     \<lparr>sg_seed_concepts = [''Gradient Descent'', ''Calculus''],
      sg_concepts = [mk_concept ''Gradient Descent'' 0 ''seed'' ''Gradient Descent'',
                     mk_concept ''Calculus'' 0 ''seed'' ''Calculus'',
                     mk_concept ''Derivatives'' 1 ''prerequisite'' ''Gradient Descent''],
      sg_resources = [], sg_examples = [],
      sg_prereq_chain = [[''Calculus'', ''Derivatives'', ''Gradient Descent''], [''Calculus'']]\<rparr>"

definition bare_example :: example_row where
  "bare_example = \<lparr>ew_text = None, ew_example_type = None, ew_concept = ''Calculus'', ew_source_url = None\<rparr>"

definition bare_graph :: graph_db where
  "bare_graph =
     \<lparr>concept_nodes = [mk_node ''Calculus''],
      relationships = [],
      resource_rows = (\<lambda>titles. if ''Calculus'' \<in> set titles
                          then [\<lparr>rw_url = ''https://example.org/calculus'', rw_resource_type = None,
                                 rw_concepts = [''Calculus'']\<rparr>]
                          else []),
      example_rows = (\<lambda>titles max_per_concept.
                         if ''Calculus'' \<in> set titles \<and> 0 < max_per_concept then [bare_example] else [])\<rparr>"

definition bare_subgraph :: Subgraph where
  "bare_subgraph =
     \<lparr>sg_seed_concepts = [''Calculus''],
      sg_concepts = [mk_concept ''Calculus'' 0 ''seed'' ''Calculus''],
      sg_resources = [\<lparr>rr_url = ''https://example.org/calculus'', rr_resource_type = ''unknown'',
                       rr_title = ''https://example.org/calculus'', rr_concepts_explained = [''Calculus''],
                       rr_page_numbers = None, rr_timecodes = None\<rparr>],
      sg_examples = [\<lparr>re_text = None, re_example_type = ''unknown'', re_concept = ''Calculus'',
                      re_source_url = []\<rparr>],
      sg_prereq_chain = [[''Calculus'']]\<rparr>"

definition tie_graph :: graph_db where
  "tie_graph = mk_store [mk_node ''Gradient Descent'', mk_node ''Derivatives'', mk_node ''Calculus'',
                         mk_node ''SGD'']
     [mk_edge ''Derivatives'' PREREQ_OF ''Gradient Descent'', mk_edge ''Calculus'' PREREQ_OF ''Derivatives'',
      mk_edge ''SGD'' IS_A ''Gradient Descent'']"

definition tie_seeds :: "RetrievedConcept list" where
  "tie_seeds = [mk_concept ''Gradient Descent'' 0 ''seed'' ''Gradient Descent'']"

definition tie_prereqs :: "RetrievedConcept list" where
  "tie_prereqs = [mk_concept ''Derivatives'' 1 ''prerequisite'' ''Gradient Descent'',
                  mk_concept ''Calculus'' 2 ''prerequisite'' ''Gradient Descent'']"

definition tie_related :: "RetrievedConcept list" where
  "tie_related = [mk_concept ''SGD'' 1 ''is_a'' ''Gradient Descent'']"

section \<open>Invariant of the queue loop\<close>

text \<open>
  \<^verbatim>\<open>remaining_in\<close> counts the edges into a title whose source is not yet placed;
  \<^verbatim>\<open>placed_in_order\<close> says that every edge into a placed title comes from a title placed
  earlier. The invariant ties \<^verbatim>\<open>in_degree\<close> to that count and the queue to the titles that
  have reached zero.
\<close>

definition remaining_in :: "(string \<times> string) list \<Rightarrow> string list \<Rightarrow> string \<Rightarrow> int" where
  "remaining_in edges res t = int (length (filter (\<lambda>e. snd e = t \<and> fst e \<notin> set res) edges))"

definition placed_in_order :: "(string \<times> string) list \<Rightarrow> string list \<Rightarrow> bool" where
  "placed_in_order edges res = (\<forall>(a, b) \<in> set edges. b \<in> set res \<longrightarrow> a \<in> set res \<and> index_of res a < index_of res b)"

definition kahn_inv :: "string list \<Rightarrow> (string \<times> string) list \<Rightarrow> (string \<Rightarrow> int) \<Rightarrow> string list \<Rightarrow> string list \<Rightarrow> bool" where
  "kahn_inv titles edges in_degree queue res =
     (distinct (res @ queue) \<and> set (res @ queue) \<subseteq> set titles
      \<and> (\<forall>t. in_degree t = remaining_in edges res t)
      \<and> (\<forall>t \<in> set titles. in_degree t = 0 \<longleftrightarrow> t \<in> set (res @ queue))
      \<and> placed_in_order edges res)"

section \<open>Deduplication as the specification words it\<close>

text \<open>
  Per title, the entry with the lowest depth, the first seen among equals; titles in the
  order of their first appearance. \<^verbatim>\<open>source_rank\<close> is the precedence of the stages: seed
  before prerequisite before related.
\<close>

definition lowest_per_title :: "RetrievedConcept list \<Rightarrow> RetrievedConcept list" where
  "lowest_per_title concepts =
     map (\<lambda>t. arg_min_list rc_depth (filter (\<lambda>c. rc_title c = t) concepts))
       (distinct_rows (map rc_title concepts))"

definition source_rank :: "RetrievedConcept \<Rightarrow> nat" where
  "source_rank c =
     (if rc_relation_to_seed c = ''seed'' then 0
      else if rc_relation_to_seed c = ''prerequisite'' then 1 else 2)"


text \<open>
  A property of a graph record is filled into an output field: an absent property gives
  the default, a present non-empty one is taken as it is. (Python's \<^verbatim>\<open>or\<close> treats the empty
  string like an absent value.)
\<close>

definition fills :: "string option \<Rightarrow> string \<Rightarrow> string \<Rightarrow> bool" where
  "fills prop dflt out =
     ((prop = None \<longrightarrow> out = dflt) \<and> (prop = Some [] \<longrightarrow> out = dflt)
      \<and> (\<forall>s. prop = Some s \<longrightarrow> s \<noteq> [] \<longrightarrow> out = s))"


text \<open>
  The three lists that \<^verbatim>\<open>expand_seeds\<close> appends before deduplication, as the stages build
  them: seeds at depth 0; prerequisites at depth 1 or more, in ascending order of depth;
  related concepts at depth 1 with the tag of a peer relation.
\<close>

definition stage_lists :: "RetrievedConcept list \<Rightarrow> RetrievedConcept list \<Rightarrow> RetrievedConcept list \<Rightarrow> bool" where
  "stage_lists seeds prereqs related =
     ((\<forall>c \<in> set seeds. rc_depth c = 0 \<and> rc_relation_to_seed c = ''seed'')
      \<and> (\<forall>c \<in> set prereqs. 1 \<le> rc_depth c \<and> rc_relation_to_seed c = ''prerequisite'')
      \<and> sorted (map rc_depth prereqs)
      \<and> (\<forall>c \<in> set related. rc_depth c = 1 \<and> rc_relation_to_seed c \<noteq> ''seed''
            \<and> rc_relation_to_seed c \<noteq> ''prerequisite''))"

section \<open>Matched paths, declaratively\<close>

text \<open>
  A path from \<^verbatim>\<open>cur\<close> is a trail when every hop takes a relationship of the store that
  was not taken before and that \<^verbatim>\<open>step\<close> allows from the node reached so far.
\<close>

fun is_trail :: "(relationship \<Rightarrow> string \<Rightarrow> string list) \<Rightarrow> relationship list \<Rightarrow> nat list \<Rightarrow> string
                 \<Rightarrow> (nat \<times> string) list \<Rightarrow> bool" where
  "is_trail step rels used cur [] = True"
| "is_trail step rels used cur ((i, nxt) # p) =
     (i < length rels \<and> i \<notin> set used \<and> nxt \<in> set (step (rels ! i) cur)
      \<and> is_trail step rels (i # used) nxt p)"


text \<open>
  A prerequisite path of a seed: a trail of 1 to \<^verbatim>\<open>d\<close> \<^verbatim>\<open>PREREQ_OF\<close> relationships, walked
  back from the seed concept to a concept. \<^verbatim>\<open>prereq_linked\<close> says of a list of titles that
  each is a direct prerequisite of the next.
\<close>

definition prereq_path :: "graph_db \<Rightarrow> int \<Rightarrow> string \<Rightarrow> (nat \<times> string) list \<Rightarrow> bool" where
  "prereq_path g d seed p =
     (is_concept g seed \<and> p \<noteq> [] \<and> int (length p) \<le> d
      \<and> is_trail prereq_step (relationships g) [] seed p \<and> is_concept g (snd (last p)))"

fun prereq_linked :: "graph_db \<Rightarrow> string list \<Rightarrow> bool" where
  "prereq_linked g (a # b # ts) =
     ((\<exists>r \<in> set (relationships g). r_type r = PREREQ_OF \<and> r_src r = a \<and> r_dst r = b)
      \<and> prereq_linked g (b # ts))"
| "prereq_linked g ts = True"

text \<open>
  The chain recorded for a seed: the singleton when the seed has no prerequisite path,
  otherwise the titles along a path that no other path of the seed exceeds in length.
\<close>

definition chain_of :: "graph_db \<Rightarrow> int \<Rightarrow> string \<Rightarrow> string list \<Rightarrow> bool" where
  "chain_of g d seed chain =
     ((\<not> (\<exists>p. prereq_path g d seed p) \<longrightarrow> chain = [seed])
      \<and> ((\<exists>p. prereq_path g d seed p) \<longrightarrow>
           (\<exists>p. prereq_path g d seed p \<and> chain = chain_titles seed p
                \<and> (\<forall>q. prereq_path g d seed q \<longrightarrow> length q \<le> length p))))"

section \<open>Properties of the topological order\<close>

lemmas example_defs = mk_concept_def mk_node_def mk_edge_def mk_store_def
lemmas order_defs = get_topological_order_def internal_edges_def is_concept_def kahn_phase_def
  build_in_degree_def build_graph_def graph_get_def append_remaining_def

lemma index_of_append_in: "x \<in> set xs \<Longrightarrow> index_of (xs @ ys) x = index_of xs x"
  by (simp add: index_of_def takeWhile_append1)

lemma index_of_append_notin: "x \<notin> set xs \<Longrightarrow> index_of (xs @ ys) x = length xs + index_of ys x"
  unfolding index_of_def by (induction xs) auto

lemma index_of_less: "x \<in> set xs \<Longrightarrow> index_of xs x < length xs"
  unfolding index_of_def by (induction xs) auto

lemma init_in_degree: "fold (\<lambda>t m. m(t := 0)) titles (\<lambda>_. 0::int) = (\<lambda>_. 0)"
  by (induction titles) (auto simp: fun_upd_idem)

lemma count_in_degree:
  "fold (\<lambda>(prereq, dependent) m. m(dependent := m dependent + 1)) edges m0 t
     = m0 t + int (length (filter (\<lambda>e. snd e = t) edges))"
  by (induction edges arbitrary: m0) (auto split: prod.splits)

lemma build_in_degree_eq:
  "build_in_degree titles edges t = int (length (filter (\<lambda>e. snd e = t) edges))"
  by (simp add: build_in_degree_def init_in_degree count_in_degree)

lemma graph_get_append:
  "graph_get (graph_append g p d) n = (if n = p then graph_get g n @ [d] else graph_get g n)"
  by (induction g p d rule: graph_append.induct) (auto simp: graph_get_def)

lemma graph_get_fold:
  "graph_get (fold (\<lambda>(prereq, dependent) g. graph_append g prereq dependent) edges g0) n
     = graph_get g0 n @ map snd (filter (\<lambda>e. fst e = n) edges)"
  by (induction edges arbitrary: g0) (auto simp: graph_get_append split: prod.splits)

lemma graph_get_build_graph:
  "graph_get (build_graph edges) n = map snd (filter (\<lambda>e. fst e = n) edges)"
proof -
  have "graph_get [] n = []" by (simp add: graph_get_def)
  with graph_get_fold[of edges "[]" n] show ?thesis by (simp add: build_graph_def)
qed

lemma visit_neighbors_in_degree:
  "fst (visit_neighbors in_degree queue ns) t = in_degree t - int (count_list ns t)"
  by (induction ns arbitrary: in_degree queue) (auto simp: Let_def)

lemma visit_neighbors_queue:
  assumes "\<forall>t \<in> set ns. int (count_list ns t) \<le> in_degree t"
  shows "\<exists>added. snd (visit_neighbors in_degree queue ns) = queue @ added \<and> distinct added
           \<and> (\<forall>t. t \<in> set added \<longleftrightarrow> t \<in> set ns \<and> in_degree t = int (count_list ns t))"
  using assms
proof (induction ns arbitrary: in_degree queue)
  case Nil
  then show ?case by simp
next
  case (Cons n ns)
  let ?d = "in_degree(n := in_degree n - 1)"
  let ?q = "if ?d n = 0 then queue @ [n] else queue"
  have run: "visit_neighbors in_degree queue (n # ns) = visit_neighbors ?d ?q ns"
    by (simp add: Let_def)
  have ge: "int (count_list ns n) + 1 \<le> in_degree n" using Cons.prems by simp
  have pre: "\<forall>t \<in> set ns. int (count_list ns t) \<le> ?d t"
  proof
    fix t assume t: "t \<in> set ns"
    show "int (count_list ns t) \<le> ?d t"
    proof (cases "t = n")
      case True
      with ge show ?thesis by simp
    next
      case False
      from Cons.prems t have "int (count_list (n # ns) t) \<le> in_degree t" by simp
      with False show ?thesis by simp
    qed
  qed
  from Cons.IH[OF pre, of ?q] obtain added where
    q: "snd (visit_neighbors ?d ?q ns) = ?q @ added" and da: "distinct added"
    and mem: "\<And>t. t \<in> set added \<longleftrightarrow> t \<in> set ns \<and> ?d t = int (count_list ns t)"
    by blast
  have other: "t \<in> set added \<longleftrightarrow> t \<in> set ns \<and> in_degree t = int (count_list (n # ns) t)"
    if "t \<noteq> n" for t
    using mem[of t] that by simp
  show ?case
  proof (cases "in_degree n = 1")
    case True
    with ge have "count_list ns n = 0" by simp
    then have nn: "n \<notin> set ns" by (simp add: count_list_0_iff)
    with mem[of n] have na: "n \<notin> set added" by simp
    have "snd (visit_neighbors in_degree queue (n # ns)) = queue @ (n # added)"
      using run q True by simp
    moreover have "distinct (n # added)" using da na by simp
    moreover have "t \<in> set (n # added) \<longleftrightarrow> t \<in> set (n # ns) \<and> in_degree t = int (count_list (n # ns) t)" for t
    proof (cases "t = n")
      case True
      with \<open>in_degree n = 1\<close> \<open>count_list ns n = 0\<close> show ?thesis by simp
    next
      case False
      with other[OF False] show ?thesis by simp
    qed
    ultimately show ?thesis by blast
  next
    case False
    have "snd (visit_neighbors in_degree queue (n # ns)) = queue @ added"
      using run q False by simp
    moreover have "t \<in> set added \<longleftrightarrow> t \<in> set (n # ns) \<and> in_degree t = int (count_list (n # ns) t)" for t
    proof (cases "t = n")
      case True
      show ?thesis
      proof (cases "n \<in> set ns")
        case True
        with mem[of n] \<open>t = n\<close> show ?thesis by auto
      next
        case nn: False
        then have "count_list ns n = 0" by (simp add: count_list_0_iff)
        with False nn mem[of n] \<open>t = n\<close> show ?thesis by auto
      qed
    next
      case False
      with other[OF False] show ?thesis by simp
    qed
    ultimately show ?thesis using da by blast
  qed
qed

lemma count_list_neighbors:
  "int (count_list (map snd (filter (\<lambda>e. fst e = node) edges)) t)
     = int (length (filter (\<lambda>e. snd e = t \<and> fst e = node) edges))"
  by (induction edges) auto

lemma remaining_in_snoc:
  assumes "node \<notin> set res"
  shows "remaining_in edges (res @ [node]) t
     = remaining_in edges res t - int (count_list (map snd (filter (\<lambda>e. fst e = node) edges)) t)"
  unfolding remaining_in_def count_list_neighbors using assms
  by (induction edges) auto

lemma remaining_in_ge:
  assumes "node \<notin> set res"
  shows "int (count_list (map snd (filter (\<lambda>e. fst e = node) edges)) t) \<le> remaining_in edges res t"
  unfolding remaining_in_def count_list_neighbors using assms
  by (induction edges) auto

lemma remaining_in_zero:
  "remaining_in edges res t = 0 \<longleftrightarrow> (\<forall>(a, b) \<in> set edges. b = t \<longrightarrow> a \<in> set res)"
  unfolding remaining_in_def by (induction edges) auto

lemma kahn_step:
  assumes inv: "kahn_inv titles edges in_degree (node # queue) res"
    and internal: "snd ` set edges \<subseteq> set titles"
    and vn: "visit_neighbors in_degree queue (map snd (filter (\<lambda>e. fst e = node) edges)) = (d', q')"
  shows "kahn_inv titles edges d' q' (res @ [node])"
proof -
  let ?ns = "map snd (filter (\<lambda>e. fst e = node) edges)"
  from inv have D: "distinct (res @ node # queue)"
    and S: "set (res @ node # queue) \<subseteq> set titles"
    and I3: "\<And>t. in_degree t = remaining_in edges res t"
    and I4: "\<And>t. t \<in> set titles \<Longrightarrow> in_degree t = 0 \<longleftrightarrow> t \<in> set (res @ node # queue)"
    and O: "placed_in_order edges res"
    unfolding kahn_inv_def by blast+
  from D have fresh: "node \<notin> set res" by simp
  have d': "\<And>t. d' t = in_degree t - int (count_list ?ns t)"
    using visit_neighbors_in_degree[of in_degree queue ?ns] vn by simp
  have I3': "\<And>t. d' t = remaining_in edges (res @ [node]) t"
    using d' I3 remaining_in_snoc[OF fresh] by simp
  have ge: "\<And>t. int (count_list ?ns t) \<le> in_degree t"
    using remaining_in_ge[OF fresh] I3 by simp
  then have "\<forall>t \<in> set ?ns. int (count_list ?ns t) \<le> in_degree t" by blast
  from visit_neighbors_queue[OF this, of queue] vn obtain added where
    q': "q' = queue @ added" and da: "distinct added"
    and sa: "\<And>t. t \<in> set added \<longleftrightarrow> t \<in> set ?ns \<and> in_degree t = int (count_list ?ns t)"
    by auto
  have ns_titles: "set ?ns \<subseteq> set titles" using internal by auto
  have added_new: "t \<notin> set (res @ node # queue)" and added_titles: "t \<in> set titles"
    if "t \<in> set added" for t
  proof -
    from that sa[of t] have tn: "t \<in> set ?ns" and eq: "in_degree t = int (count_list ?ns t)" by blast+
    from tn show tt: "t \<in> set titles" using ns_titles by blast
    from tn have "count_list ?ns t \<noteq> 0" by (simp only: count_list_0_iff not_not)
    with eq have "in_degree t \<noteq> 0" by simp
    with I4[OF tt] show "t \<notin> set (res @ node # queue)" by blast
  qed
  have D': "distinct ((res @ [node]) @ q')"
    using D da added_new unfolding q' by auto
  have S': "set ((res @ [node]) @ q') \<subseteq> set titles"
    using S added_titles unfolding q' by auto
  have I4': "d' t = 0 \<longleftrightarrow> t \<in> set ((res @ [node]) @ q')" if tt: "t \<in> set titles" for t
  proof
    assume z: "d' t = 0"
    then have eq: "in_degree t = int (count_list ?ns t)" using d'[of t] by simp
    show "t \<in> set ((res @ [node]) @ q')"
    proof (cases "t \<in> set ?ns")
      case True
      with eq sa[of t] have "t \<in> set added" by blast
      then show ?thesis unfolding q' by simp
    next
      case False
      then have "count_list ?ns t = 0" by (simp add: count_list_0_iff)
      with eq have "in_degree t = 0" by simp
      with I4[OF tt] show ?thesis unfolding q' by auto
    qed
  next
    assume "t \<in> set ((res @ [node]) @ q')"
    then consider "t \<in> set (res @ node # queue)" | "t \<in> set added" unfolding q' by auto
    then show "d' t = 0"
    proof cases
      case 1
      with I4[OF tt] have "in_degree t = 0" by blast
      with ge[of t] d'[of t] show ?thesis by simp
    next
      case 2
      with sa[of t] d'[of t] show ?thesis by simp
    qed
  qed
  have O': "placed_in_order edges (res @ [node])"
    unfolding placed_in_order_def
  proof (intro ballI, clarify)
    fix a b assume e: "(a, b) \<in> set edges" and b: "b \<in> set (res @ [node])"
    show "a \<in> set (res @ [node]) \<and> index_of (res @ [node]) a < index_of (res @ [node]) b"
    proof (cases "b \<in> set res")
      case True
      with O e have "a \<in> set res" "index_of res a < index_of res b"
        unfolding placed_in_order_def by blast+
      with True show ?thesis by (simp add: index_of_append_in)
    next
      case False
      with b have bn: "b = node" by simp
      have "node \<in> set titles" using S by simp
      from I4[OF this] have "in_degree node = 0" by simp
      then have "remaining_in edges res node = 0" using I3 by simp
      with e bn have a: "a \<in> set res" unfolding remaining_in_zero by blast
      have "index_of (res @ [node]) b = length res"
        using fresh bn index_of_append_notin[of node res "[node]"] by (simp add: index_of_def)
      with a show ?thesis by (simp add: index_of_append_in index_of_less)
    qed
  qed
  from D' S' I3' I4' O' show ?thesis unfolding kahn_inv_def by blast
qed

lemma kahn_loop_inv:
  assumes "kahn_inv titles edges in_degree queue res"
    and "snd ` set edges \<subseteq> set titles"
  shows "\<exists>d. kahn_inv titles edges d [] (kahn_loop (build_graph edges) in_degree queue res)"
  using assms
proof (induction "build_graph edges" in_degree queue res rule: kahn_loop.induct)
  case (1 in_degree result)
  then show ?case by auto
next
  case (2 in_degree node queue result)
  obtain d' q' where vn: "visit_neighbors in_degree queue (graph_get (build_graph edges) node) = (d', q')"
    by (cases "visit_neighbors in_degree queue (graph_get (build_graph edges) node)")
  then have "visit_neighbors in_degree queue (map snd (filter (\<lambda>e. fst e = node) edges)) = (d', q')"
    by (simp add: graph_get_build_graph)
  from kahn_step[OF "2.prems"(1) "2.prems"(2) this]
  have "kahn_inv titles edges d' q' (result @ [node])" .
  from "2.hyps"[OF vn[symmetric] this "2.prems"(2)] vn show ?case by simp
qed

lemma kahn_inv_initial:
  assumes "distinct titles"
  shows "kahn_inv titles edges (build_in_degree titles edges)
           (filter (\<lambda>t. build_in_degree titles edges t = 0) titles) []"
  unfolding kahn_inv_def placed_in_order_def remaining_in_def
  using assms by (auto simp: build_in_degree_eq)

lemma kahn_phase_inv:
  assumes "distinct titles" and "snd ` set edges \<subseteq> set titles"
  shows "\<exists>d. kahn_inv titles edges d [] (kahn_phase titles edges)"
  unfolding kahn_phase_def Let_def
  by (rule kahn_loop_inv[OF kahn_inv_initial[OF assms(1)] assms(2)])

lemma append_remaining_distinct_input:
  assumes "distinct titles"
  shows "append_remaining titles res = res @ filter (\<lambda>t. t \<notin> set res) titles"
  using assms unfolding append_remaining_def
proof (induction titles arbitrary: res)
  case Nil
  then show ?case by simp
next
  case (Cons t ts)
  then have "filter (\<lambda>x. x \<notin> set (res @ [t])) ts = filter (\<lambda>x. x \<notin> set res) ts"
    by (intro filter_cong) auto
  with Cons show ?case by simp
qed

lemma internal_edges_closed:
  "fst ` set (internal_edges g titles) \<subseteq> set titles \<and> snd ` set (internal_edges g titles) \<subseteq> set titles"
  by (auto simp: internal_edges_def)

lemma kahn_phase_complete:
  assumes dist: "distinct titles"
    and closed: "fst ` set edges \<subseteq> set titles" "snd ` set edges \<subseteq> set titles"
    and acyc: "acyclic (set edges)"
  shows "set (kahn_phase titles edges) = set titles"
proof -
  let ?res = "kahn_phase titles edges"
  from kahn_phase_inv[OF dist closed(2)] obtain d where inv: "kahn_inv titles edges d [] ?res" ..
  then have sub: "set ?res \<subseteq> set titles"
    and I3: "\<And>t. d t = remaining_in edges ?res t"
    and I4: "\<And>t. t \<in> set titles \<Longrightarrow> d t = 0 \<longleftrightarrow> t \<in> set ?res"
    unfolding kahn_inv_def by auto
  have "set titles - set ?res = {}"
  proof (rule ccontr)
    assume "set titles - set ?res \<noteq> {}"
    then obtain x where x: "x \<in> set titles - set ?res" by blast
    have "wf (set edges)" using acyc by (simp add: finite_acyclic_wf)
    from wfE_min[OF this x] obtain z where z: "z \<in> set titles - set ?res"
      and zmin: "\<And>y. (y, z) \<in> set edges \<Longrightarrow> y \<notin> set titles - set ?res" by blast
    from z I4[of z] have "d z \<noteq> 0" by simp
    then have "remaining_in edges ?res z \<noteq> 0" using I3 by simp
    then obtain a where a: "(a, z) \<in> set edges" "a \<notin> set ?res"
      unfolding remaining_in_zero by blast
    from a(1) closed(1) have "a \<in> set titles" by force
    with a zmin show False by blast
  qed
  with sub show ?thesis by blast
qed

section \<open>Properties of the deduplication\<close>

lemma distinct_rows_fold:
  "set (fold (\<lambda>r acc. if r \<in> set acc then acc else acc @ [r]) rows acc) = set acc \<union> set rows
   \<and> (distinct acc \<longrightarrow> distinct (fold (\<lambda>r acc. if r \<in> set acc then acc else acc @ [r]) rows acc))"
  by (induction rows arbitrary: acc) auto

lemma set_distinct_rows: "set (distinct_rows rows) = set rows"
  by (simp add: distinct_rows_def distinct_rows_fold)

lemma distinct_distinct_rows: "distinct (distinct_rows rows)"
  by (simp add: distinct_rows_def distinct_rows_fold)

lemma distinct_rows_snoc:
  "distinct_rows (rows @ [r]) = (if r \<in> set rows then distinct_rows rows else distinct_rows rows @ [r])"
  using set_distinct_rows[of rows] by (simp add: distinct_rows_def)

lemma arg_min_list_snoc:
  "es \<noteq> [] \<Longrightarrow> arg_min_list f (es @ [c]) = (if f c < f (arg_min_list f es) then c else arg_min_list f es)"
proof (induction f es rule: arg_min_list.induct)
  case (1 f x)
  then show ?case by auto
next
  case (2 f x y zs)
  then show ?case by (auto simp: Let_def)
next
  case (3 f)
  then show ?case by simp
qed

lemma map_of_keyed:
  "map_of (map (\<lambda>t. (t, F t)) keys) k = (if k \<in> set keys then Some (F k) else None)"
  by (induction keys) auto

lemma dict_set_keyed_new:
  "k \<notin> set keys \<Longrightarrow> dict_set (map (\<lambda>t. (t, F t)) keys) k v = map (\<lambda>t. (t, F t)) keys @ [(k, v)]"
  by (induction keys) auto

lemma dict_set_keyed_old:
  "k \<in> set keys \<Longrightarrow> distinct keys \<Longrightarrow>
     dict_set (map (\<lambda>t. (t, F t)) keys) k v = map (\<lambda>t. (t, if t = k then v else F t)) keys"
  by (induction keys) auto

lemma seen_fold:
  "fold seen_step concepts [] =
     map (\<lambda>t. (t, arg_min_list rc_depth (filter (\<lambda>c. rc_title c = t) concepts)))
       (distinct_rows (map rc_title concepts))"
proof (induction concepts rule: rev_induct)
  case Nil
  then show ?case by (simp add: distinct_rows_def)
next
  case (snoc c cs)
  let ?keys = "distinct_rows (map rc_title cs)"
  let ?F = "\<lambda>L t. arg_min_list rc_depth (filter (\<lambda>c. rc_title c = t) L)"
  let ?seen = "map (\<lambda>t. (t, ?F cs t)) ?keys"
  have step: "fold seen_step (cs @ [c]) [] = seen_step c ?seen" using snoc by simp
  have other: "?F (cs @ [c]) t = ?F cs t" if "t \<noteq> rc_title c" for t using that by simp
  show ?case
  proof (cases "rc_title c \<in> set (map rc_title cs)")
    case False
    then have nk: "rc_title c \<notin> set ?keys" unfolding set_distinct_rows .
    have "filter (\<lambda>x. rc_title x = rc_title c) cs = []" using False by (force simp: filter_empty_conv image_iff)
    then have new: "?F (cs @ [c]) (rc_title c) = c" by simp
    have "seen_step c ?seen = ?seen @ [(rc_title c, c)]"
      using nk by (simp add: seen_step_def map_of_keyed dict_set_keyed_new)
    moreover have "distinct_rows (map rc_title (cs @ [c])) = ?keys @ [rc_title c]"
      using False by (simp add: distinct_rows_snoc)
    moreover have "map (\<lambda>t. (t, ?F (cs @ [c]) t)) ?keys = ?seen"
      using nk other by (intro map_cong) auto
    ultimately show ?thesis using step new by simp
  next
    case True
    then have k: "rc_title c \<in> set ?keys" unfolding set_distinct_rows .
    have ne: "filter (\<lambda>x. rc_title x = rc_title c) cs \<noteq> []" using True by (force simp: filter_empty_conv image_iff)
    have upd: "?F (cs @ [c]) (rc_title c) = (if rc_depth c < rc_depth (?F cs (rc_title c)) then c else ?F cs (rc_title c))"
      using arg_min_list_snoc[OF ne, of rc_depth c] by simp
    have keys: "distinct_rows (map rc_title (cs @ [c])) = ?keys"
      using True by (simp add: distinct_rows_snoc)
    have "seen_step c ?seen = map (\<lambda>t. (t, ?F (cs @ [c]) t)) ?keys"
    proof (cases "rc_depth c < rc_depth (?F cs (rc_title c))")
      case True
      then have "seen_step c ?seen = map (\<lambda>t. (t, if t = rc_title c then c else ?F cs t)) ?keys"
        using k by (simp add: seen_step_def map_of_keyed dict_set_keyed_old distinct_distinct_rows)
      also have "\<dots> = map (\<lambda>t. (t, ?F (cs @ [c]) t)) ?keys"
        using upd True other by (intro map_cong) auto
      finally show ?thesis .
    next
      case False
      then have "seen_step c ?seen = ?seen"
        using k by (simp add: seen_step_def map_of_keyed)
      also have "\<dots> = map (\<lambda>t. (t, ?F (cs @ [c]) t)) ?keys"
        using upd False other by (intro map_cong) auto
      finally show ?thesis .
    qed
    with step keys show ?thesis by simp
  qed
qed

lemma seen_values: "map snd (fold seen_step concepts []) = lowest_per_title concepts"
  by (simp add: seen_fold lowest_per_title_def comp_def)

lemma deduplicate_concepts_eq:
  "deduplicate_concepts concepts max_concepts
     = slice_to (sort_key rc_depth (lowest_per_title concepts)) max_concepts"
  by (simp add: deduplicate_concepts_def seen_values)

lemma lowest_per_title_entry:
  assumes "c \<in> set (lowest_per_title concepts)"
  shows "c \<in> set concepts \<and> (\<forall>x \<in> set concepts. rc_title x = rc_title c \<longrightarrow> rc_depth c \<le> rc_depth x)"
proof -
  from assms obtain t where t: "t \<in> set (map rc_title concepts)"
    and c: "c = arg_min_list rc_depth (filter (\<lambda>c. rc_title c = t) concepts)"
    unfolding lowest_per_title_def set_map set_distinct_rows by blast
  let ?es = "filter (\<lambda>c. rc_title c = t) concepts"
  from t have ne: "?es \<noteq> []" by (auto simp: filter_empty_conv)
  from arg_min_list_in[OF ne, of rc_depth] c have cin: "c \<in> set ?es" by simp
  then have ct: "rc_title c = t" and cc: "c \<in> set concepts" by auto
  have "rc_depth c \<le> rc_depth x" if "x \<in> set concepts" "rc_title x = rc_title c" for x
  proof -
    from that ct have "x \<in> set ?es" by simp
    then have "Min (rc_depth ` set ?es) \<le> rc_depth x" by (intro Min_le) auto
    with f_arg_min_list_f[OF ne, of rc_depth] c show ?thesis by simp
  qed
  with cc show ?thesis by blast
qed

lemma lowest_per_title_titles:
  "map rc_title (lowest_per_title concepts) = distinct_rows (map rc_title concepts)"
proof -
  have "rc_title (arg_min_list rc_depth (filter (\<lambda>c. rc_title c = t) concepts)) = t"
    if "t \<in> set (distinct_rows (map rc_title concepts))" for t
  proof -
    from that have "filter (\<lambda>c. rc_title c = t) concepts \<noteq> []"
      unfolding set_distinct_rows by (auto simp: filter_empty_conv)
    from arg_min_list_in[OF this, of rc_depth] show ?thesis by simp
  qed
  then show ?thesis unfolding lowest_per_title_def map_map comp_def
    by (intro map_idI) 
qed

lemma deduplicate_distinct_titles:
  "distinct (map rc_title (deduplicate_concepts concepts max_concepts))"
proof -
  have d: "distinct (map rc_title (lowest_per_title concepts))"
    by (simp add: lowest_per_title_titles distinct_distinct_rows)
  then have "distinct (map rc_title (sort_key rc_depth (lowest_per_title concepts)))"
    by (simp add: distinct_map)
  then have "distinct (take n (map rc_title (sort_key rc_depth (lowest_per_title concepts))))" for n
    by (rule distinct_take)
  then show ?thesis
    unfolding deduplicate_concepts_eq slice_to_def by (simp add: take_map)
qed

lemma deduplicate_sorted:
  "sorted (map rc_depth (deduplicate_concepts concepts max_concepts))"
proof -
  have "sorted (map rc_depth (sort_key rc_depth (lowest_per_title concepts)))" by simp
  then have "sorted (take n (map rc_depth (sort_key rc_depth (lowest_per_title concepts))))" for n
    by (rule sorted_wrt_take)
  then show ?thesis
    unfolding deduplicate_concepts_eq slice_to_def by (simp add: take_map)
qed

lemma deduplicate_length:
  "0 \<le> max_concepts \<Longrightarrow> int (length (deduplicate_concepts concepts max_concepts)) \<le> max_concepts"
  unfolding deduplicate_concepts_eq slice_to_def by simp

lemma deduplicate_subset:
  "set (deduplicate_concepts concepts max_concepts) \<subseteq> set concepts"
proof -
  have "set (deduplicate_concepts concepts max_concepts) \<subseteq> set (lowest_per_title concepts)"
    unfolding deduplicate_concepts_eq slice_to_def using set_take_subset[of _ "sort_key rc_depth (lowest_per_title concepts)"]
    by (auto split: if_splits)
  with lowest_per_title_entry show ?thesis by blast
qed

section \<open>Properties of the expansion stages\<close>

lemma trails_iff:
  "p \<in> set (trails step rels used k cur) \<longleftrightarrow> length p = k \<and> is_trail step rels used cur p"
proof (induction k arbitrary: used cur p)
  case 0
  then show ?case by (cases p) auto
next
  case (Suc k)
  show ?case
  proof (cases p)
    case Nil
    then show ?thesis by auto
  next
    case (Cons hop rest)
    obtain i nxt where hop: "hop = (i, nxt)" by (cases hop)
    have "(i, nxt) # rest \<in> set (trails step rels used (Suc k) cur)
        \<longleftrightarrow> i < length rels \<and> i \<notin> set used \<and> nxt \<in> set (step (rels ! i) cur)
            \<and> rest \<in> set (trails step rels (i # used) k nxt)"
      by (auto simp: image_iff)
    then show ?thesis unfolding Cons hop using Suc.IH[of rest "i # used" nxt] by auto
  qed
qed

lemma var_length_paths_iff:
  "p \<in> set (var_length_paths step rels d start)
     \<longleftrightarrow> 1 \<le> length p \<and> int (length p) \<le> d \<and> is_trail step rels [] start p"
  unfolding var_length_paths_def by (auto simp: trails_iff)

lemma expand_seeds_Inr:
  assumes "expand_seeds g seed_titles prereq_depth related_depth max_concepts max_examples = Inr sg"
  obtains prereqs related where
    "get_prerequisites g seed_titles prereq_depth = Inr prereqs"
    "get_related_concepts g seed_titles related_depth = Inr related"
    "get_prereq_chains g seed_titles prereq_depth = Inr (sg_prereq_chain sg)"
    "sg_concepts sg = deduplicate_concepts (get_seed_concepts g seed_titles @ prereqs @ related) max_concepts"
    "sg_seed_concepts sg = seed_titles"
    "sg_resources sg = get_resources g (map rc_title (sg_concepts sg))"
    "sg_examples sg = get_examples g (map rc_title (sg_concepts sg)) max_examples"
  using assms unfolding expand_seeds_def Let_def
  by (auto split: sum.splits)

lemma seed_stage:
  assumes "c \<in> set (get_seed_concepts g titles)"
  shows "rc_depth c = 0 \<and> rc_relation_to_seed c = ''seed''"
  using assms unfolding get_seed_concepts_def by auto

lemma prereq_match_rows_entry:
  "(p, hops, s) \<in> set (prereq_match_rows g seedTitle path)
     \<Longrightarrow> hops = int (length path) \<and> s = seedTitle \<and> path \<noteq> [] \<and> cn_title p = snd (last path)
         \<and> p \<in> set (concept_nodes g)"
  unfolding prereq_match_rows_def match_concept_def
  by (cases path rule: rev_cases) auto

lemma prereq_matches_entry:
  assumes "prereq_matches g titles d = Inr ms" and "(p, hops, s) \<in> set ms"
  shows "1 \<le> hops \<and> hops \<le> d"
proof -
  from assms(1) have ms: "ms = concat (map (\<lambda>seedTitle.
             concat (map (\<lambda>seed.
               concat (map (prereq_match_rows g seedTitle)
                 (var_length_paths prereq_step (relationships g) d seedTitle)))
               (match_concept g seedTitle)))
           titles)"
    unfolding prereq_matches_def by (simp split: if_splits)
  from assms(2) obtain seedTitle path where
    path: "path \<in> set (var_length_paths prereq_step (relationships g) d seedTitle)"
    and "(p, hops, s) \<in> set (prereq_match_rows g seedTitle path)"
    unfolding ms by auto
  then have "hops = int (length path)" using prereq_match_rows_entry by blast
  with path show ?thesis by (simp add: var_length_paths_iff)
qed

lemma min_list_in: "xs \<noteq> [] \<Longrightarrow> min_list xs \<in> set (xs :: 'a::linorder list)"
  by (simp add: min_list_Min)

lemma prereq_group_row_depth:
  assumes "key \<in> set (map (\<lambda>(p, hops, s). (p, s)) ms)"
  shows "\<exists>p s. (p, pr_depth (prereq_group_row ms key), s) \<in> set ms"
proof -
  let ?dists = "map (\<lambda>(p, hops, s). hops) (filter (\<lambda>(p, hops, s). (p, s) = key) ms)"
  from assms have "?dists \<noteq> []" by (auto simp: filter_empty_conv)
  then have "min_list ?dists \<in> set ?dists" by (rule min_list_in)
  then have "\<exists>p s. (p, min_list ?dists, s) \<in> set ms" by auto
  moreover have "pr_depth (prereq_group_row ms key) = min_list ?dists"
    unfolding prereq_group_row_def by (cases key) simp
  ultimately show ?thesis by simp
qed

lemma prereq_rows_depth:
  assumes "prereq_rows g titles d = Inr rows" and "r \<in> set rows"
  shows "1 \<le> pr_depth r \<and> pr_depth r \<le> d"
proof -
  from assms(1) obtain ms where ms: "prereq_matches g titles d = Inr ms"
    and rows: "rows = sort_key pr_depth
                 (map (prereq_group_row ms) (distinct_rows (map (\<lambda>(p, hops, s). (p, s)) ms)))"
    unfolding prereq_rows_def by (auto split: sum.splits)
  from assms(2) obtain key where key: "key \<in> set (map (\<lambda>(p, hops, s). (p, s)) ms)"
    and r: "r = prereq_group_row ms key"
    unfolding rows set_sort set_map set_distinct_rows by blast
  from prereq_group_row_depth[OF key] obtain p s where "(p, pr_depth r, s) \<in> set ms"
    unfolding r by blast
  from prereq_matches_entry[OF ms this] show ?thesis .
qed

lemma prereq_stage:
  assumes "get_prerequisites g titles d = Inr prereqs"
  shows "sorted (map rc_depth prereqs)
       \<and> (\<forall>c \<in> set prereqs. 1 \<le> rc_depth c \<and> rc_depth c \<le> d \<and> rc_relation_to_seed c = ''prerequisite'')"
proof -
  from assms obtain rows where rows: "prereq_rows g titles d = Inr rows"
    and p: "prereqs = map (\<lambda>record.
                 \<lparr>rc_title = pr_title record,
                  rc_definition = or_default (pr_definition record) [],
                  rc_difficulty = or_default (pr_difficulty record) ''unknown'',
                  rc_depth = pr_depth record,
                  rc_relation_to_seed = ''prerequisite'',
                  rc_seed_concept = pr_seed_concept record\<rparr>) rows"
    unfolding get_prerequisites_def by (auto split: sum.splits)
  have depths: "map rc_depth prereqs = map pr_depth rows" unfolding p by simp
  from rows have "\<exists>xs. rows = sort_key pr_depth xs"
    unfolding prereq_rows_def by (auto split: sum.splits)
  then have "sorted (map pr_depth rows)" by auto
  then have "sorted (map rc_depth prereqs)" unfolding depths .
  moreover have "1 \<le> rc_depth c \<and> rc_depth c \<le> d \<and> rc_relation_to_seed c = ''prerequisite''"
    if "c \<in> set prereqs" for c
    using that prereq_rows_depth[OF rows] unfolding p by auto
  ultimately show ?thesis by blast
qed

lemma lower_type_name:
  "lower (type_name IS_A) = ''is_a''" "lower (type_name PART_OF) = ''part_of''"
  "lower (type_name SIBLING) = ''sibling''" "lower (type_name CONTRASTS_WITH) = ''contrasts_with''"
  "lower (type_name PREREQ_OF) = ''prereq_of''"
  by code_simp+

lemma peer_step_type:
  "n \<in> set (peer_step r cur) \<Longrightarrow>
     r_type r \<in> {IS_A, PART_OF, SIBLING, CONTRASTS_WITH} \<and> (r_src r = cur \<and> n = r_dst r \<or> r_dst r = cur \<and> n = r_src r)"
  unfolding peer_step_def by (auto split: if_splits)

lemma related_match_rows_entry:
  "r \<in> set (related_match_rows g seedTitle path) \<Longrightarrow>
     \<exists>i nxt rest. path = (i, nxt) # rest \<and> lr_seed_concept r = seedTitle
       \<and> lr_relation_type r = type_name (r_type (relationships g ! i))
       \<and> lr_title r \<noteq> seedTitle \<and> snd (last path) = lr_title r"
  unfolding related_match_rows_def match_concept_def
  by (cases path) auto

lemma related_rows_entry:
  assumes "related_rows g titles d = Inr rows" and "r \<in> set rows"
  shows "\<exists>i nxt rest. is_trail peer_step (relationships g) [] (lr_seed_concept r) ((i, nxt) # rest)
           \<and> int (length ((i, nxt) # rest)) \<le> d
           \<and> snd (last ((i, nxt) # rest)) = lr_title r
           \<and> lr_relation_type r = type_name (r_type (relationships g ! i))
           \<and> lr_title r \<noteq> lr_seed_concept r \<and> lr_seed_concept r \<in> set titles"
proof -
  from assms(1) have rows: "rows = distinct_rows (concat (map (\<lambda>seedTitle.
             concat (map (\<lambda>seed.
               concat (map (related_match_rows g seedTitle)
                 (var_length_paths peer_step (relationships g) d seedTitle)))
               (match_concept g seedTitle)))
           titles))"
    unfolding related_rows_def by (simp split: if_splits)
  from assms(2) obtain seedTitle path where st: "seedTitle \<in> set titles"
    and path: "path \<in> set (var_length_paths peer_step (relationships g) d seedTitle)"
    and r: "r \<in> set (related_match_rows g seedTitle path)"
    unfolding rows set_distinct_rows by auto
  from related_match_rows_entry[OF r] obtain i nxt rest where
    p: "path = (i, nxt) # rest" and s: "lr_seed_concept r = seedTitle"
    and ty: "lr_relation_type r = type_name (r_type (relationships g ! i))"
    and ne: "lr_title r \<noteq> seedTitle" and l: "snd (last path) = lr_title r" by blast
  from path have "int (length path) \<le> d" "is_trail peer_step (relationships g) [] seedTitle path"
    unfolding var_length_paths_iff by blast+
  then have "is_trail peer_step (relationships g) [] (lr_seed_concept r) ((i, nxt) # rest)"
    "int (length ((i, nxt) # rest)) \<le> d" "snd (last ((i, nxt) # rest)) = lr_title r"
    "lr_title r \<noteq> lr_seed_concept r" "lr_seed_concept r \<in> set titles"
    using p s l ne st by simp_all
  with ty show ?thesis by blast
qed

lemma related_stage:
  assumes "get_related_concepts g titles d = Inr related" and "c \<in> set related"
  shows "rc_depth c = 1
       \<and> (\<exists>i nxt rest. is_trail peer_step (relationships g) [] (rc_seed_concept c) ((i, nxt) # rest)
             \<and> int (length ((i, nxt) # rest)) \<le> d
             \<and> snd (last ((i, nxt) # rest)) = rc_title c
             \<and> r_type (relationships g ! i) \<in> {IS_A, PART_OF, SIBLING, CONTRASTS_WITH}
             \<and> rc_relation_to_seed c = lower (type_name (r_type (relationships g ! i))))
       \<and> rc_relation_to_seed c \<in> {''is_a'', ''part_of'', ''sibling'', ''contrasts_with''}"
proof -
  from assms(1) obtain rows where rows: "related_rows g titles d = Inr rows"
    and rel: "related = map (\<lambda>record.
                 \<lparr>rc_title = lr_title record,
                  rc_definition = or_default (lr_definition record) [],
                  rc_difficulty = or_default (lr_difficulty record) ''unknown'',
                  rc_depth = 1,
                  rc_relation_to_seed = lower (lr_relation_type record),
                  rc_seed_concept = lr_seed_concept record\<rparr>) rows"
    unfolding get_related_concepts_def by (auto split: sum.splits)
  from assms(2) obtain r where r: "r \<in> set rows" and c: "rc_depth c = 1" "rc_title c = lr_title r"
    "rc_relation_to_seed c = lower (lr_relation_type r)" "rc_seed_concept c = lr_seed_concept r"
    unfolding rel by auto
  from related_rows_entry[OF rows r] obtain i nxt rest where
    t: "is_trail peer_step (relationships g) [] (lr_seed_concept r) ((i, nxt) # rest)"
    and l: "int (length ((i, nxt) # rest)) \<le> d" "snd (last ((i, nxt) # rest)) = lr_title r"
    and ty: "lr_relation_type r = type_name (r_type (relationships g ! i))" by blast
  from t have "nxt \<in> set (peer_step (relationships g ! i) (lr_seed_concept r))" by simp
  from peer_step_type[OF this] have peer: "r_type (relationships g ! i) \<in> {IS_A, PART_OF, SIBLING, CONTRASTS_WITH}"
    by blast
  then have "lower (type_name (r_type (relationships g ! i))) \<in> {''is_a'', ''part_of'', ''sibling'', ''contrasts_with''}"
    using lower_type_name by auto
  then have tag: "rc_relation_to_seed c \<in> {''is_a'', ''part_of'', ''sibling'', ''contrasts_with''}"
    "rc_relation_to_seed c = lower (type_name (r_type (relationships g ! i)))"
    unfolding c(3) ty by simp_all
  have "is_trail peer_step (relationships g) [] (rc_seed_concept c) ((i, nxt) # rest)"
    "snd (last ((i, nxt) # rest)) = rc_title c"
    using t l(2) unfolding c(2,4) by simp_all
  with c(1) l(1) peer tag show ?thesis by blast
qed


section \<open>Properties of first-appearance lists and of the seed union\<close>

lemma distinct_rows_fold_from:
  "fold (\<lambda>r acc. if r \<in> set acc then acc else acc @ [r]) rows acc
     = acc @ filter (\<lambda>r. r \<notin> set acc) (distinct_rows rows)"
proof (induction rows rule: rev_induct)
  case Nil
  then show ?case by (simp add: distinct_rows_def)
next
  case (snoc r rows)
  show ?case
  proof (cases "r \<in> set rows")
    case True
    then have "r \<in> set acc \<or> r \<in> set (filter (\<lambda>r. r \<notin> set acc) (distinct_rows rows))"
      by (simp add: set_distinct_rows)
    then show ?thesis using snoc True by (auto simp: distinct_rows_snoc)
  next
    case False
    then have "r \<notin> set (filter (\<lambda>r. r \<notin> set acc) (distinct_rows rows))"
      by (simp add: set_distinct_rows)
    then show ?thesis using snoc False by (auto simp: distinct_rows_snoc)
  qed
qed

lemma distinct_rows_append:
  "distinct_rows (xs @ ys) = distinct_rows xs @ filter (\<lambda>r. r \<notin> set xs) (distinct_rows ys)"
proof -
  have "distinct_rows (xs @ ys)
      = fold (\<lambda>r acc. if r \<in> set acc then acc else acc @ [r]) ys (distinct_rows xs)"
    by (simp add: distinct_rows_def)
  then show ?thesis by (simp add: distinct_rows_fold_from set_distinct_rows)
qed

lemma distinct_rows_Nil: "distinct_rows [] = []"
  by (simp add: distinct_rows_def)

lemma distinct_rows_id: "distinct rows \<Longrightarrow> distinct_rows rows = rows"
  by (induction rows rule: rev_induct) (auto simp: distinct_rows_snoc distinct_rows_Nil)

lemma subseq_distinct_rows: "subseq (distinct_rows rows) rows"
proof (induction rows rule: rev_induct)
  case Nil
  then show ?case by (simp add: distinct_rows_def)
next
  case (snoc r rows)
  then have "subseq (distinct_rows rows) (rows @ [r])" by (rule list_emb_prefix)
  moreover have "subseq (distinct_rows rows @ [r]) (rows @ [r])" using snoc by simp
  ultimately show ?case by (simp add: distinct_rows_snoc)
qed

lemma union_seeds_eq:
  "union_seeds explicit_concepts semantic_matches
     = explicit_concepts @ filter (\<lambda>t. t \<notin> set explicit_concepts) (distinct_rows (map sm_title semantic_matches))"
proof -
  have "union_seeds explicit_concepts semantic_matches
      = fold (\<lambda>r acc. if r \<in> set acc then acc else acc @ [r]) (map sm_title semantic_matches) explicit_concepts"
    unfolding union_seeds_def by (simp add: fold_map comp_def)
  then show ?thesis by (simp add: distinct_rows_fold_from)
qed


section \<open>Properties of the prerequisite chains\<close>

lemma match_concept_nonempty: "match_concept g t \<noteq> [] \<longleftrightarrow> is_concept g t"
  unfolding match_concept_def is_concept_def by (auto simp: filter_empty_conv)

lemma chain_match_rows_iff:
  "p \<in> set (chain_match_rows g path) \<longleftrightarrow> p = path \<and> path \<noteq> [] \<and> is_concept g (snd (last path))"
proof (cases path rule: rev_cases)
  case Nil
  then show ?thesis by (simp add: chain_match_rows_def)
next
  case (snoc rest hop)
  obtain i far where hop: "hop = (i, far)" by (cases hop)
  have "set (map (\<lambda>prereq. path) (match_concept g far)) = (if is_concept g far then {path} else {})"
    using match_concept_nonempty[of g far] by (cases "match_concept g far") auto
  then show ?thesis unfolding snoc hop by (auto simp: chain_match_rows_def split: if_splits)
qed

lemma chain_matches_iff:
  "p \<in> set (chain_matches g d seed) \<longleftrightarrow> prereq_path g d seed p"
proof -
  have "p \<in> set (chain_matches g d seed)
      \<longleftrightarrow> match_concept g seed \<noteq> []
          \<and> (\<exists>path \<in> set (var_length_paths prereq_step (relationships g) d seed).
                p \<in> set (chain_match_rows g path))"
    unfolding chain_matches_def by (cases "match_concept g seed") auto
  also have "\<dots> \<longleftrightarrow> is_concept g seed
          \<and> p \<in> set (var_length_paths prereq_step (relationships g) d seed)
          \<and> p \<noteq> [] \<and> is_concept g (snd (last p))"
    unfolding match_concept_nonempty chain_match_rows_iff by blast
  also have "\<dots> \<longleftrightarrow> prereq_path g d seed p"
    unfolding var_length_paths_iff prereq_path_def by (cases p) auto
  finally show ?thesis .
qed

lemma sort_key_first:
  assumes "xs \<noteq> []"
  shows "\<exists>m. take 1 (sort_key f xs) = [m] \<and> m \<in> set xs \<and> (\<forall>x \<in> set xs. f m \<le> f x)"
proof -
  from assms have "sort_key f xs \<noteq> []" by (metis length_sort length_0_conv)
  then obtain m rest where s: "sort_key f xs = m # rest" by (cases "sort_key f xs") auto
  have "sorted (map f (sort_key f xs))" by simp
  then have "\<forall>x \<in> set (m # rest). f m \<le> f x" unfolding s by auto
  moreover have "set (m # rest) = set xs" unfolding s[symmetric] by simp
  ultimately show ?thesis using s by auto
qed

lemma chain_rows_cases:
  assumes "chain_rows g d seed = Inr rows"
  shows "(\<not> (\<exists>p. prereq_path g d seed p) \<longrightarrow> rows = [])
       \<and> ((\<exists>p. prereq_path g d seed p) \<longrightarrow>
            (\<exists>p. prereq_path g d seed p \<and> rows = [chain_titles seed p]
                 \<and> (\<forall>q. prereq_path g d seed q \<longrightarrow> length q \<le> length p)))"
proof -
  let ?ms = "chain_matches g d seed"
  from assms have rows: "rows = map (chain_titles seed) (take 1 (sort_key (\<lambda>path. - int (length path)) ?ms))"
    unfolding chain_rows_def by (simp split: if_splits)
  show ?thesis
  proof (cases "?ms = []")
    case True
    then have "\<not> (\<exists>p. prereq_path g d seed p)"
      using chain_matches_iff[of _ g d seed] by auto
    with True rows show ?thesis by simp
  next
    case False
    from sort_key_first[OF False, of "\<lambda>path. - int (length path)"] obtain m where
      m: "take 1 (sort_key (\<lambda>path. - int (length path)) ?ms) = [m]" "m \<in> set ?ms"
         "\<forall>x \<in> set ?ms. - int (length m) \<le> - int (length x)" by blast
    from m(2) have pm: "prereq_path g d seed m" by (simp only: chain_matches_iff)
    have "length q \<le> length m" if "prereq_path g d seed q" for q
    proof -
      from that have "q \<in> set ?ms" by (simp only: chain_matches_iff)
      with m(3) show ?thesis by fastforce
    qed
    moreover have "rows = [chain_titles seed m]" unfolding rows m(1) by simp
    ultimately show ?thesis using pm by blast
  qed
qed

lemma prereq_linked_snoc:
  assumes "prereq_linked g (ts @ [a])"
    and "\<exists>r \<in> set (relationships g). r_type r = PREREQ_OF \<and> r_src r = a \<and> r_dst r = b"
  shows "prereq_linked g (ts @ [a, b])"
  using assms
proof (induction ts)
  case Nil
  then show ?case by simp
next
  case (Cons t ts)
  then show ?case by (cases ts) auto
qed

lemma chain_titles_Cons: "chain_titles cur ((i, n) # rest) = chain_titles n rest @ [cur]"
  by (simp add: chain_titles_def)

lemma chain_titles_snoc_form: "\<exists>ts. chain_titles cur p = ts @ [cur]"
  by (simp add: chain_titles_def)

lemma trail_linked:
  "is_trail prereq_step (relationships g) used cur p \<Longrightarrow> prereq_linked g (chain_titles cur p)"
proof (induction p arbitrary: used cur)
  case Nil
  then show ?case by (simp add: chain_titles_def)
next
  case (Cons hop rest)
  obtain i n where hop: "hop = (i, n)" by (cases hop)
  from Cons.prems have i: "i < length (relationships g)"
    and n: "n \<in> set (prereq_step (relationships g ! i) cur)"
    and rest: "is_trail prereq_step (relationships g) (i # used) n rest"
    unfolding hop by simp_all
  from n have e: "r_type (relationships g ! i) = PREREQ_OF" "r_dst (relationships g ! i) = cur"
    "r_src (relationships g ! i) = n"
    unfolding prereq_step_def by (auto split: if_splits)
  from i have "relationships g ! i \<in> set (relationships g)" by simp
  with e have edge: "\<exists>r \<in> set (relationships g). r_type r = PREREQ_OF \<and> r_src r = n \<and> r_dst r = cur"
    by blast
  from Cons.IH[OF rest] have "prereq_linked g (chain_titles n rest)" .
  moreover obtain ts where ts: "chain_titles n rest = ts @ [n]" using chain_titles_snoc_form by blast
  ultimately have "prereq_linked g (ts @ [n, cur])" using prereq_linked_snoc[OF _ edge] by simp
  then show ?case unfolding hop chain_titles_Cons ts by simp
qed

lemma get_prereq_chains_all:
  "get_prereq_chains g seed_titles depth = Inr chains' \<Longrightarrow> list_all2 (chain_of g depth) seed_titles chains'"
proof (induction seed_titles arbitrary: chains')
  case Nil
  then show ?case by simp
next
  case (Cons seed seed_titles)
  from Cons.prems obtain rows rest where rows: "chain_rows g depth seed = Inr rows"
    and rest: "get_prereq_chains g seed_titles depth = Inr rest"
    and c: "chains' = (case rows of [] \<Rightarrow> [seed] | record # _ \<Rightarrow> record) # rest"
    by (auto split: sum.splits)
  from chain_rows_cases[OF rows] have "chain_of g depth seed (case rows of [] \<Rightarrow> [seed] | record # _ \<Rightarrow> record)"
    unfolding chain_of_def by auto
  with Cons.IH[OF rest] show ?case unfolding c by simp
qed


section \<open>Properties of the record constructors\<close>

lemma fills_or_default: "fills prop dflt (or_default prop dflt)"
  unfolding fills_def or_default_def by (auto split: option.splits)

lemma seed_concept_node:
  assumes "c \<in> set (get_seed_concepts g titles)"
  shows "\<exists>n \<in> set (concept_nodes g). cn_title n = rc_title c
           \<and> rc_definition c = or_default (cn_definition n) []
           \<and> rc_difficulty c = or_default (cn_difficulty n) ''unknown''"
  using assms unfolding get_seed_concepts_def match_concept_def by auto

lemma prereq_row_node:
  assumes "prereq_rows g titles d = Inr rows" and "r \<in> set rows"
  shows "\<exists>n \<in> set (concept_nodes g). cn_title n = pr_title r
           \<and> pr_definition r = cn_definition n \<and> pr_difficulty r = cn_difficulty n"
proof -
  from assms(1) obtain ms where ms: "prereq_matches g titles d = Inr ms"
    and rows: "rows = sort_key pr_depth
                 (map (prereq_group_row ms) (distinct_rows (map (\<lambda>(p, hops, s). (p, s)) ms)))"
    unfolding prereq_rows_def by (auto split: sum.splits)
  from assms(2) obtain key where key: "key \<in> set (map (\<lambda>(p, hops, s). (p, s)) ms)"
    and r: "r = prereq_group_row ms key"
    unfolding rows set_sort set_map set_distinct_rows by blast
  from key obtain p hops s where m: "(p, hops, s) \<in> set ms" and k: "key = (p, s)" by auto
  from ms have "ms = concat (map (\<lambda>seedTitle.
             concat (map (\<lambda>seed.
               concat (map (prereq_match_rows g seedTitle)
                 (var_length_paths prereq_step (relationships g) d seedTitle)))
               (match_concept g seedTitle)))
           titles)"
    unfolding prereq_matches_def by (simp split: if_splits)
  with m obtain seedTitle path where "(p, hops, s) \<in> set (prereq_match_rows g seedTitle path)"
    by auto
  then have "p \<in> set (concept_nodes g)" using prereq_match_rows_entry by blast
  moreover have "cn_title p = pr_title r" "pr_definition r = cn_definition p" "pr_difficulty r = cn_difficulty p"
    unfolding r k prereq_group_row_def by simp_all
  ultimately show ?thesis by blast
qed

lemma prereq_concept_node:
  assumes "get_prerequisites g titles d = Inr prereqs" and "c \<in> set prereqs"
  shows "\<exists>n \<in> set (concept_nodes g). cn_title n = rc_title c
           \<and> rc_definition c = or_default (cn_definition n) []
           \<and> rc_difficulty c = or_default (cn_difficulty n) ''unknown''"
proof -
  from assms(1) obtain rows where rows: "prereq_rows g titles d = Inr rows"
    and p: "prereqs = map (\<lambda>record.
                 \<lparr>rc_title = pr_title record,
                  rc_definition = or_default (pr_definition record) [],
                  rc_difficulty = or_default (pr_difficulty record) ''unknown'',
                  rc_depth = pr_depth record,
                  rc_relation_to_seed = ''prerequisite'',
                  rc_seed_concept = pr_seed_concept record\<rparr>) rows"
    unfolding get_prerequisites_def by (auto split: sum.splits)
  from assms(2) obtain r where r: "r \<in> set rows" and c: "rc_title c = pr_title r"
    "rc_definition c = or_default (pr_definition r) []"
    "rc_difficulty c = or_default (pr_difficulty r) ''unknown''"
    unfolding p by auto
  from prereq_row_node[OF rows r] c show ?thesis by auto
qed

lemma related_match_rows_node:
  "r \<in> set (related_match_rows g seedTitle path) \<Longrightarrow>
     \<exists>n \<in> set (concept_nodes g). cn_title n = lr_title r
        \<and> lr_definition r = cn_definition n \<and> lr_difficulty r = cn_difficulty n"
  unfolding related_match_rows_def match_concept_def
  by (cases path) auto

lemma related_concept_node:
  assumes "get_related_concepts g titles d = Inr related" and "c \<in> set related"
  shows "\<exists>n \<in> set (concept_nodes g). cn_title n = rc_title c
           \<and> rc_definition c = or_default (cn_definition n) []
           \<and> rc_difficulty c = or_default (cn_difficulty n) ''unknown''"
proof -
  from assms(1) obtain rows where rows: "related_rows g titles d = Inr rows"
    and rel: "related = map (\<lambda>record.
                 \<lparr>rc_title = lr_title record,
                  rc_definition = or_default (lr_definition record) [],
                  rc_difficulty = or_default (lr_difficulty record) ''unknown'',
                  rc_depth = 1,
                  rc_relation_to_seed = lower (lr_relation_type record),
                  rc_seed_concept = lr_seed_concept record\<rparr>) rows"
    unfolding get_related_concepts_def by (auto split: sum.splits)
  from assms(2) obtain r where r: "r \<in> set rows" and c: "rc_title c = lr_title r"
    "rc_definition c = or_default (lr_definition r) []"
    "rc_difficulty c = or_default (lr_difficulty r) ''unknown''"
    unfolding rel by auto
  from rows have R: "rows = distinct_rows (concat (map (\<lambda>seedTitle.
             concat (map (\<lambda>seed.
               concat (map (related_match_rows g seedTitle)
                 (var_length_paths peer_step (relationships g) d seedTitle)))
               (match_concept g seedTitle)))
           titles))"
    unfolding related_rows_def by (simp split: if_splits)
  from r obtain seedTitle path where "r \<in> set (related_match_rows g seedTitle path)"
    unfolding R set_distinct_rows by auto
  from related_match_rows_node[OF this] c show ?thesis by auto
qed

lemma resources_loop_row:
  "r \<in> set (resources_loop rows seen_urls) \<Longrightarrow>
     \<exists>row \<in> set rows. rw_url row = rr_url r
        \<and> rr_resource_type r = or_default (rw_resource_type row) ''unknown''"
  by (induction rows seen_urls rule: resources_loop.induct) (auto split: if_splits)

lemma get_prereq_chains_total:
  "0 \<le> depth \<Longrightarrow> \<exists>chains'. get_prereq_chains g seed_titles depth = Inr chains'"
  by (induction seed_titles) (auto simp: chain_rows_def)

lemma expand_seeds_total:
  assumes "0 \<le> prereq_depth" and "0 \<le> related_depth"
  shows "\<exists>sg. expand_seeds g seed_titles prereq_depth related_depth max_concepts max_examples = Inr sg"
proof -
  from assms(1) obtain p where p: "get_prerequisites g seed_titles prereq_depth = Inr p"
    by (simp add: get_prerequisites_def prereq_rows_def prereq_matches_def)
  from assms(2) obtain r where r: "get_related_concepts g seed_titles related_depth = Inr r"
    by (simp add: get_related_concepts_def related_rows_def)
  from get_prereq_chains_total[OF assms(1)] obtain c where
    c: "get_prereq_chains g seed_titles prereq_depth = Inr c" by blast
  show ?thesis unfolding expand_seeds_def Let_def p r c by simp
qed


section \<open>Depth order and stage precedence\<close>

lemma pair_le_iff: "(a, b) \<le> (c, d) \<longleftrightarrow> a < c \<or> (a = c \<and> b \<le> d)"
  for a c :: int and b d :: nat
  by (auto simp: less_eq_prod_def)

lemma sort_by_depth_is_priority_sort:
  fixes f :: "'a \<Rightarrow> int" and r :: "'a \<Rightarrow> nat"
  assumes ok: "sorted_wrt (\<lambda>x y. f x = f y \<longrightarrow> r x \<le> r y) D"
  shows "sort_key f D = sort_key (\<lambda>c. (f c, r c)) D"
proof (rule properties_for_sort_key)
  let ?key = "\<lambda>c. (f c, r c)"
  let ?ys = "sort_key ?key D"
  show "mset ?ys = mset D" by simp
  have "sorted (map ?key ?ys)" by simp
  then have "sorted_wrt (\<lambda>x y. ?key x \<le> ?key y) ?ys" by (simp add: sorted_map)
  then have "sorted_wrt (\<lambda>x y. f x \<le> f y) ?ys"
    by (rule sorted_wrt_mono_rel[rotated]) (auto simp: pair_le_iff)
  then show "sorted (map f ?ys)" by (simp add: sorted_map)
  fix k assume "k \<in> set ?ys"
  let ?P = "\<lambda>x. f k = f x"
  have "sorted_wrt (\<lambda>x y. f x = f y \<longrightarrow> r x \<le> r y) (filter ?P D)"
    using ok by (rule sorted_wrt_filter)
  then have "sorted_wrt (\<lambda>x y. ?key x \<le> ?key y) (filter ?P D)"
    by (rule sorted_wrt_mono_rel[rotated]) (auto simp: pair_le_iff)
  then have "sorted (map ?key (filter ?P D))" by (simp add: sorted_map)
  then have "sort_key ?key (filter ?P D) = filter ?P D" by (rule sort_key_id_if_sorted)
  then show "filter ?P ?ys = filter ?P D" by (simp add: filter_sort)
qed

lemma arg_min_list_append_left:
  assumes "xs \<noteq> []" and "\<forall>y \<in> set ys. f (arg_min_list f xs) \<le> f y"
  shows "arg_min_list f (xs @ ys) = arg_min_list f xs"
  using assms(2)
proof (induction ys rule: rev_induct)
  case Nil
  then show ?case by simp
next
  case (snoc y ys)
  then have IH: "arg_min_list f (xs @ ys) = arg_min_list f xs" by simp
  from assms(1) have ne: "xs @ ys \<noteq> []" by simp
  from snoc.prems have "\<not> f y < f (arg_min_list f xs)" by (simp add: not_less)
  with arg_min_list_snoc[OF ne, of f y] IH show ?case by simp
qed

lemma sorted_split_at_least:
  fixes f :: "'a \<Rightarrow> int"
  assumes "sorted (map f xs)" and "\<forall>x \<in> set xs. m \<le> f x"
  shows "xs = filter (\<lambda>x. f x = m) xs @ filter (\<lambda>x. f x \<noteq> m) xs"
  using assms
proof (induction xs)
  case Nil
  then show ?case by simp
next
  case (Cons x xs)
  then have IH: "xs = filter (\<lambda>x. f x = m) xs @ filter (\<lambda>x. f x \<noteq> m) xs" by simp
  show ?case
  proof (cases "f x = m")
    case True
    with IH show ?thesis by simp
  next
    case False
    with Cons.prems have "m < f x" by auto
    with Cons.prems(1) have "\<forall>y \<in> set xs. f y \<noteq> m" by auto
    then have "filter (\<lambda>x. f x = m) xs = []" by (simp add: filter_empty_conv)
    moreover from \<open>\<forall>y \<in> set xs. f y \<noteq> m\<close> have "filter (\<lambda>x. f x \<noteq> m) xs = xs" by (simp add: filter_id_conv)
    ultimately show ?thesis using False by simp
  qed
qed

lemma sorted_constant_map:
  fixes k :: "'a \<Rightarrow> nat"
  shows "\<forall>x \<in> set xs. k x = c \<Longrightarrow> sorted (map k xs)"
  by (induction xs) auto

lemma sorted_constant_prefix:
  fixes k :: "'a \<Rightarrow> nat"
  assumes "\<forall>x \<in> set A. k x = c" and "sorted (map k B)" and "\<forall>y \<in> set B. c \<le> k y"
  shows "sorted (map k (A @ B))"
  using assms sorted_constant_map[OF assms(1)] by (auto simp: sorted_append)

lemma title_not_among:
  "rc_title x = t \<Longrightarrow> t \<notin> set (map rc_title xs) \<Longrightarrow> x \<notin> set xs"
  by (metis image_eqI set_map)

lemma source_rank_cases:
  "rc_relation_to_seed c = ''seed'' \<Longrightarrow> source_rank c = 0"
  "rc_relation_to_seed c = ''prerequisite'' \<Longrightarrow> source_rank c = 1"
  "rc_relation_to_seed c \<noteq> ''seed'' \<Longrightarrow> rc_relation_to_seed c \<noteq> ''prerequisite'' \<Longrightarrow> source_rank c = 2"
  by (simp_all add: source_rank_def)

lemma stage_order_within_depth:
  assumes st: "stage_lists S P R"
  shows "sorted_wrt (\<lambda>x y. rc_depth x = rc_depth y \<longrightarrow> source_rank x \<le> source_rank y)
           (lowest_per_title (S @ P @ R))"
proof -
  define L where "L = S @ P @ R"
  define W where "W = (\<lambda>t. arg_min_list rc_depth (filter (\<lambda>c. rc_title c = t) L))"
  define P1 where "P1 = filter (\<lambda>c. rc_depth c = 1) P"
  define P2 where "P2 = filter (\<lambda>c. rc_depth c \<noteq> 1) P"
  define tS where "tS = map rc_title S"
  define tP1 where "tP1 = map rc_title P1"
  define tP2 where "tP2 = map rc_title P2"
  define tR where "tR = map rc_title R"
  define seg :: "string \<Rightarrow> nat" where
    "seg = (\<lambda>t. if t \<in> set tS then 0 else if t \<in> set tP1 then 1 else if t \<in> set tP2 then 2 else 3)"
  from st have s: "\<And>c. c \<in> set S \<Longrightarrow> rc_depth c = 0 \<and> source_rank c = 0"
    and p: "\<And>c. c \<in> set P \<Longrightarrow> 1 \<le> rc_depth c \<and> source_rank c = 1"
    and sp: "sorted (map rc_depth P)"
    and r: "\<And>c. c \<in> set R \<Longrightarrow> rc_depth c = 1 \<and> source_rank c = 2"
    unfolding stage_lists_def using source_rank_cases by auto
  have Psplit: "P = P1 @ P2"
    unfolding P1_def P2_def using sp p by (intro sorted_split_at_least) auto
  have setP: "set P = set P1 \<union> set P2" by (subst Psplit) simp
  have p1: "\<And>c. c \<in> set P1 \<Longrightarrow> rc_depth c = 1" unfolding P1_def by simp
  have inP1: "\<And>c. c \<in> set P \<Longrightarrow> rc_depth c = 1 \<Longrightarrow> c \<in> set P1" unfolding P1_def by simp
  have Lset: "set L = set S \<union> set P \<union> set R" unfolding L_def by auto
  have titles: "distinct_rows (map rc_title L)
      = distinct_rows tS
        @ filter (\<lambda>t. t \<notin> set tS) (distinct_rows tP1)
        @ filter (\<lambda>t. t \<notin> set tS) (filter (\<lambda>t. t \<notin> set tP1) (distinct_rows tP2))
        @ filter (\<lambda>t. t \<notin> set tS) (filter (\<lambda>t. t \<notin> set tP1) (filter (\<lambda>t. t \<notin> set tP2) (distinct_rows tR)))"
    unfolding L_def Psplit tS_def tP1_def tP2_def tR_def
    by (simp add: distinct_rows_append)
  have seg_sorted: "sorted (map seg (distinct_rows (map rc_title L)))"
  proof -
    have c0: "\<forall>t \<in> set (distinct_rows tS). seg t = 0"
      by (simp add: seg_def set_distinct_rows)
    have c1: "\<forall>t \<in> set (filter (\<lambda>t. t \<notin> set tS) (distinct_rows tP1)). seg t = 1"
      by (simp add: seg_def set_distinct_rows)
    have c2: "\<forall>t \<in> set (filter (\<lambda>t. t \<notin> set tS) (filter (\<lambda>t. t \<notin> set tP1) (distinct_rows tP2))). seg t = 2"
      by (simp add: seg_def set_distinct_rows)
    have c3: "\<forall>t \<in> set (filter (\<lambda>t. t \<notin> set tS) (filter (\<lambda>t. t \<notin> set tP1)
                (filter (\<lambda>t. t \<notin> set tP2) (distinct_rows tR)))). seg t = 3"
      by (simp add: seg_def set_distinct_rows)
    let ?X0 = "distinct_rows tS"
    let ?X1 = "filter (\<lambda>t. t \<notin> set tS) (distinct_rows tP1)"
    let ?X2 = "filter (\<lambda>t. t \<notin> set tS) (filter (\<lambda>t. t \<notin> set tP1) (distinct_rows tP2))"
    let ?X3 = "filter (\<lambda>t. t \<notin> set tS) (filter (\<lambda>t. t \<notin> set tP1)
                (filter (\<lambda>t. t \<notin> set tP2) (distinct_rows tR)))"
    have s3: "sorted (map seg ?X3)" using c3 by (rule sorted_constant_map)
    have "\<forall>y \<in> set ?X3. 2 \<le> seg y" using c3 by simp
    with c2 s3 have s2: "sorted (map seg (?X2 @ ?X3))" by (rule sorted_constant_prefix)
    have "\<forall>y \<in> set (?X2 @ ?X3). 1 \<le> seg y"
    proof
      fix y assume "y \<in> set (?X2 @ ?X3)"
      then consider "y \<in> set ?X2" | "y \<in> set ?X3" by auto
      then show "1 \<le> seg y" using c2 c3 by cases simp_all
    qed
    with c1 s2 have s1: "sorted (map seg (?X1 @ ?X2 @ ?X3))" by (rule sorted_constant_prefix)
    have "\<forall>y \<in> set (?X1 @ ?X2 @ ?X3). 0 \<le> seg y" by simp
    with c0 s1 have "sorted (map seg (?X0 @ ?X1 @ ?X2 @ ?X3))" by (rule sorted_constant_prefix)
    then show ?thesis unfolding titles .
  qed
  have profile:
    "(seg t = 0 \<and> rc_depth (W t) = 0 \<and> source_rank (W t) = 0)
     \<or> (seg t = 1 \<and> rc_depth (W t) = 1 \<and> source_rank (W t) = 1)
     \<or> (seg t = 2 \<and> rc_depth (W t) = 1 \<and> source_rank (W t) = 2)
     \<or> (seg t = 2 \<and> 2 \<le> rc_depth (W t) \<and> source_rank (W t) = 1)
     \<or> (seg t = 3 \<and> rc_depth (W t) = 1 \<and> source_rank (W t) = 2)"
    if t: "t \<in> set (map rc_title L)" for t
  proof -
    let ?es = "filter (\<lambda>c. rc_title c = t) L"
    from t have ne: "?es \<noteq> []" by (force simp: filter_empty_conv image_iff)
    from arg_min_list_in[OF ne, of rc_depth] have win: "W t \<in> set L" and wt: "rc_title (W t) = t"
      unfolding W_def by simp_all
    have least: "rc_depth (W t) \<le> rc_depth x" if "x \<in> set L" "rc_title x = t" for x
    proof -
      from that have "x \<in> set ?es" by simp
      then have "Min (rc_depth ` set ?es) \<le> rc_depth x" by (intro Min_le) auto
      with f_arg_min_list_f[OF ne, of rc_depth] show ?thesis unfolding W_def by simp
    qed
    show ?thesis
    proof (cases "t \<in> set tS")
      case True
      then obtain c where c: "c \<in> set S" "rc_title c = t" unfolding tS_def by auto
      with s least[of c] Lset have "rc_depth (W t) \<le> 0" by auto
      with win Lset s p r have "W t \<in> set S" by fastforce
      with s True show ?thesis by (simp add: seg_def)
    next
      case notS: False
      with wt have wS: "W t \<notin> set S" unfolding tS_def by (rule title_not_among)
      show ?thesis
      proof (cases "t \<in> set tP1")
        case True
        with notS have seg1: "seg t = 1" by (simp add: seg_def)
        let ?Pt = "filter (\<lambda>c. rc_title c = t) P" and ?Rt = "filter (\<lambda>c. rc_title c = t) R"
        from True obtain c where c: "c \<in> set P1" "rc_title c = t" unfolding tP1_def by auto
        then have cP: "c \<in> set ?Pt" using setP by simp
        then have Pne: "?Pt \<noteq> []" by (metis empty_iff empty_set)
        have "filter (\<lambda>c. rc_title c = t) S = []" using notS unfolding tS_def
          by (force simp: filter_empty_conv image_iff)
        then have es: "?es = ?Pt @ ?Rt" unfolding L_def by simp
        have "Min (rc_depth ` set ?Pt) \<le> rc_depth c" using cP by (intro Min_le) auto
        with f_arg_min_list_f[OF Pne, of rc_depth] p1[OF c(1)] have le1: "rc_depth (arg_min_list rc_depth ?Pt) \<le> 1"
          by simp
        have "\<forall>y \<in> set ?Rt. rc_depth (arg_min_list rc_depth ?Pt) \<le> rc_depth y"
          using le1 r by auto
        from arg_min_list_append_left[OF Pne this] have "W t = arg_min_list rc_depth ?Pt"
          unfolding W_def es .
        with arg_min_list_in[OF Pne, of rc_depth] have wP: "W t \<in> set P" by simp
        with p le1 \<open>W t = arg_min_list rc_depth ?Pt\<close> have "rc_depth (W t) = 1" "source_rank (W t) = 1"
          by force+
        with seg1 show ?thesis by simp
      next
        case notP1: False
        with wt have wP1: "W t \<notin> set P1" unfolding tP1_def by (rule title_not_among)
        show ?thesis
        proof (cases "t \<in> set tP2")
          case True
          with notS notP1 have seg2: "seg t = 2" by (simp add: seg_def)
          from win wS Lset consider "W t \<in> set P" | "W t \<in> set R" by auto
          then show ?thesis
          proof cases
            case 1
            with wP1 inP1 have "rc_depth (W t) \<noteq> 1" by blast
            with p[OF 1] have "2 \<le> rc_depth (W t)" "source_rank (W t) = 1" by auto
            with seg2 show ?thesis by simp
          next
            case 2
            with r seg2 show ?thesis by simp
          qed
        next
          case False
          with notS notP1 have seg3: "seg t = 3" by (simp add: seg_def)
          from wt False have "W t \<notin> set P2" unfolding tP2_def by (rule title_not_among)
          with wP1 setP have "W t \<notin> set P" by simp
          with win wS Lset have "W t \<in> set R" by auto
          with r seg3 show ?thesis by simp
        qed
      qed
    qed
  qed
  have ok: "rc_depth (W a) = rc_depth (W b) \<longrightarrow> source_rank (W a) \<le> source_rank (W b)"
    if "a \<in> set (distinct_rows (map rc_title L))" "b \<in> set (distinct_rows (map rc_title L))"
      "seg a \<le> seg b" for a b
  proof -
    from that(1,2) have "a \<in> set (map rc_title L)" "b \<in> set (map rc_title L)"
      unfolding set_distinct_rows by simp_all
    from profile[OF this(1)] profile[OF this(2)] that(3) show ?thesis
      by (elim disjE conjE) simp_all
  qed
  from seg_sorted have "sorted_wrt (\<lambda>a b. seg a \<le> seg b) (distinct_rows (map rc_title L))"
    by (simp add: sorted_map)
  then have "sorted_wrt (\<lambda>a b. rc_depth (W a) = rc_depth (W b) \<longrightarrow> source_rank (W a) \<le> source_rank (W b))
       (distinct_rows (map rc_title L))"
    by (rule sorted_wrt_mono_rel[rotated]) (rule ok)
  then have "sorted_wrt (\<lambda>x y. rc_depth x = rc_depth y \<longrightarrow> source_rank x \<le> source_rank y)
       (map W (distinct_rows (map rc_title L)))"
    by (simp add: sorted_wrt_map)
  then show ?thesis unfolding lowest_per_title_def W_def L_def .
qed

lemma pipeline_stage_lists:
  assumes "get_prerequisites g seed_titles prereq_depth = Inr prereqs"
    and "get_related_concepts g seed_titles related_depth = Inr related"
  shows "stage_lists (get_seed_concepts g seed_titles) prereqs related"
proof -
  have "\<forall>c \<in> set related. rc_depth c = 1 \<and> rc_relation_to_seed c \<noteq> ''seed''
            \<and> rc_relation_to_seed c \<noteq> ''prerequisite''"
  proof
    fix c assume "c \<in> set related"
    from related_stage[OF assms(2) this] have "rc_depth c = 1"
      "rc_relation_to_seed c \<in> {''is_a'', ''part_of'', ''sibling'', ''contrasts_with''}" by blast+
    then show "rc_depth c = 1 \<and> rc_relation_to_seed c \<noteq> ''seed'' \<and> rc_relation_to_seed c \<noteq> ''prerequisite''"
      by auto
  qed
  with seed_stage prereq_stage[OF assms(1)] show ?thesis unfolding stage_lists_def by blast
qed


section \<open>Claims about the topological order\<close>

text \<open>
  Claim C1, as amended. For every input list of concepts with pairwise distinct titles, over
  any store (cyclic \<^verbatim>\<open>PREREQ_OF\<close> edges included), \<^verbatim>\<open>get_topological_order\<close> returns a
  list without duplicates that holds exactly the input titles, each once; it is the list
  placed by the queue phase followed by the titles the queue phase did not place, in input
  order.
\<close>

theorem topological_order_permutation:
  assumes "distinct (map rc_title concepts)"
  shows "distinct (get_topological_order g concepts)
       \<and> mset (get_topological_order g concepts) = mset (map rc_title concepts)
       \<and> get_topological_order g concepts
           = kahn_phase (map rc_title concepts) (internal_edges g (map rc_title concepts))
             @ filter (\<lambda>t. t \<notin> set (kahn_phase (map rc_title concepts) (internal_edges g (map rc_title concepts))))
                 (map rc_title concepts)"
proof -
  let ?titles = "map rc_title concepts"
  let ?edges = "internal_edges g ?titles"
  let ?res = "kahn_phase ?titles ?edges"
  let ?out = "get_topological_order g concepts"
  from internal_edges_closed[of g ?titles] have closed: "snd ` set ?edges \<subseteq> set ?titles" by blast
  from kahn_phase_inv[OF assms closed] obtain d where "kahn_inv ?titles ?edges d [] ?res" ..
  then have dres: "distinct ?res" and sub: "set ?res \<subseteq> set ?titles"
    unfolding kahn_inv_def by auto
  have out: "?out = ?res @ filter (\<lambda>t. t \<notin> set ?res) ?titles"
    unfolding get_topological_order_def Let_def by (rule append_remaining_distinct_input[OF assms])
  have dout: "distinct ?out" unfolding out using dres assms by auto
  have "set ?out = set ?titles" unfolding out using sub by auto
  with set_eq_iff_mset_eq_distinct[OF dout assms] have "mset ?out = mset ?titles" by blast
  with dout out show ?thesis by blast
qed

text \<open>
  The theorem at the cyclic store \<^verbatim>\<open>A -> B -> A\<close> with a third, unconnected concept:
  only \<^verbatim>\<open>C\<close> is placed by the queue, \<^verbatim>\<open>A\<close> and \<^verbatim>\<open>B\<close> follow in input order.
\<close>

theorem topological_order_permutation_witness:
  "distinct (map rc_title cycle_concepts)
   \<and> get_topological_order cycle_graph cycle_concepts = [''C'', ''A'', ''B'']
   \<and> mset (get_topological_order cycle_graph cycle_concepts) = mset (map rc_title cycle_concepts)"
proof -
  have d: "distinct (map rc_title cycle_concepts)"
    by (simp add: cycle_concepts_def example_defs)
  have "get_topological_order cycle_graph cycle_concepts = [''C'', ''A'', ''B'']"
    by (simp add: cycle_concepts_def cycle_graph_def example_defs order_defs)
  with d topological_order_permutation[OF d, of cycle_graph] show ?thesis by blast
qed

text \<open>
  Claim C1 as stated, for every input list: it fails on a list that repeats titles. With
  the concepts \<^verbatim>\<open>A, A, B, B\<close> and the edge \<^verbatim>\<open>A -> B\<close> both copies of \<^verbatim>\<open>A\<close> enter the
  initial queue, \<^verbatim>\<open>B\<close> is enqueued once, and the closing loop adds nothing: the output
  holds \<^verbatim>\<open>A\<close> twice and is not a rearrangement of the input titles.
\<close>

theorem topological_order_duplicates_counterexample:
  "get_topological_order duplicate_graph duplicate_concepts = [''A'', ''A'', ''B'']
   \<and> \<not> distinct (get_topological_order duplicate_graph duplicate_concepts)
   \<and> mset (get_topological_order duplicate_graph duplicate_concepts) \<noteq> mset (map rc_title duplicate_concepts)"
proof -
  have "get_topological_order duplicate_graph duplicate_concepts = [''A'', ''A'', ''B'']"
    by (simp add: duplicate_concepts_def duplicate_graph_def example_defs order_defs)
  then show ?thesis by (simp add: duplicate_concepts_def example_defs)
qed

text \<open>
  Claim C2. For every concept set (pairwise distinct titles) whose internal \<^verbatim>\<open>PREREQ_OF\<close>
  edges, those with both endpoints in the set, form an acyclic relation, every internal
  edge \<^verbatim>\<open>(a, b)\<close> has both ends in the output of \<^verbatim>\<open>get_topological_order\<close>, and the index of
  \<^verbatim>\<open>a\<close> is strictly less than the index of \<^verbatim>\<open>b\<close>.
\<close>

theorem topological_order_respects_prerequisites:
  assumes "distinct (map rc_title concepts)"
    and "acyclic (set (internal_edges g (map rc_title concepts)))"
    and "(a, b) \<in> set (internal_edges g (map rc_title concepts))"
  shows "a \<in> set (get_topological_order g concepts) \<and> b \<in> set (get_topological_order g concepts)
       \<and> index_of (get_topological_order g concepts) a < index_of (get_topological_order g concepts) b"
proof -
  let ?titles = "map rc_title concepts"
  let ?edges = "internal_edges g ?titles"
  let ?res = "kahn_phase ?titles ?edges"
  from internal_edges_closed[of g ?titles]
  have closed: "fst ` set ?edges \<subseteq> set ?titles" "snd ` set ?edges \<subseteq> set ?titles" by blast+
  from kahn_phase_complete[OF assms(1) closed assms(2)] have all: "set ?res = set ?titles" .
  then have "filter (\<lambda>t. t \<notin> set ?res) ?titles = []" by simp
  then have out: "get_topological_order g concepts = ?res"
    unfolding get_topological_order_def Let_def append_remaining_distinct_input[OF assms(1)] by simp
  from kahn_phase_inv[OF assms(1) closed(2)] obtain d where "kahn_inv ?titles ?edges d [] ?res" ..
  then have ord: "placed_in_order ?edges ?res" unfolding kahn_inv_def by blast
  from assms(3) closed(2) have "b \<in> set ?titles" by force
  with all have "b \<in> set ?res" by simp
  with ord assms(3) show ?thesis unfolding out placed_in_order_def by blast
qed

text \<open>The theorem at the chain Calculus, Derivatives, Gradient Descent.\<close>

theorem topological_order_respects_prerequisites_witness:
  "distinct (map rc_title calculus_concepts)
   \<and> acyclic (set (internal_edges calculus_graph (map rc_title calculus_concepts)))
   \<and> (''Calculus'', ''Derivatives'') \<in> set (internal_edges calculus_graph (map rc_title calculus_concepts))
   \<and> get_topological_order calculus_graph calculus_concepts = [''Calculus'', ''Derivatives'', ''Gradient Descent'']
   \<and> index_of (get_topological_order calculus_graph calculus_concepts) ''Calculus''
       < index_of (get_topological_order calculus_graph calculus_concepts) ''Derivatives''"
proof -
  have d: "distinct (map rc_title calculus_concepts)"
    by (simp add: calculus_concepts_def example_defs)
  have e: "internal_edges calculus_graph (map rc_title calculus_concepts)
      = [(''Derivatives'', ''Gradient Descent''), (''Calculus'', ''Derivatives'')]"
    by (simp add: calculus_concepts_def calculus_graph_def example_defs internal_edges_def is_concept_def)
  have "acyclic ({} :: (string \<times> string) set)" by (simp add: acyclic_def)
  then have a: "acyclic (set (internal_edges calculus_graph (map rc_title calculus_concepts)))"
    unfolding e by (simp add: rtrancl_insert)
  have m: "(''Calculus'', ''Derivatives'') \<in> set (internal_edges calculus_graph (map rc_title calculus_concepts))"
    unfolding e by simp
  have o: "get_topological_order calculus_graph calculus_concepts = [''Calculus'', ''Derivatives'', ''Gradient Descent'']"
    by (simp add: calculus_concepts_def calculus_graph_def example_defs order_defs)
  from topological_order_respects_prerequisites[OF d a m] d a m o show ?thesis by blast
qed

section \<open>Claims about the expanded concept list\<close>

text \<open>
  Claim C3, as amended. For every call to \<^verbatim>\<open>expand_seeds\<close> that returns a subgraph (any
  seed titles, depths and limits, over any store), the returned concept list has no two
  entries with the same title and is sorted in ascending order of depth; when
  \<^verbatim>\<open>max_concepts\<close> is not negative, its length is at most \<^verbatim>\<open>max_concepts\<close>.
\<close>

theorem expand_seeds_concepts_shape:
  assumes "expand_seeds g seed_titles prereq_depth related_depth max_concepts max_examples = Inr sg"
  shows "distinct (map rc_title (sg_concepts sg)) \<and> sorted (map rc_depth (sg_concepts sg))
       \<and> (0 \<le> max_concepts \<longrightarrow> int (length (sg_concepts sg)) \<le> max_concepts)"
proof -
  from assms obtain prereqs related where
    c: "sg_concepts sg = deduplicate_concepts (get_seed_concepts g seed_titles @ prereqs @ related) max_concepts"
    by (rule expand_seeds_Inr)
  show ?thesis unfolding c
    using deduplicate_distinct_titles deduplicate_sorted deduplicate_length by blast
qed

text \<open>
  The theorem at the store Calculus, Derivatives, Gradient Descent with a budget of two
  concepts: the seed and its nearest prerequisite are returned.
\<close>

theorem expand_seeds_concepts_shape_witness:
  "expand_seeds calculus_graph [''Gradient Descent''] 2 1 2 2
     = Inr (calculus_subgraph (take 2 calculus_concepts))
   \<and> distinct (map rc_title (take 2 calculus_concepts))
   \<and> sorted (map rc_depth (take 2 calculus_concepts))
   \<and> int (length (take 2 calculus_concepts)) \<le> 2"
proof -
  have run: "expand_seeds calculus_graph [''Gradient Descent''] 2 1 2 2
     = Inr (calculus_subgraph (take 2 calculus_concepts))"
    by code_simp
  from expand_seeds_concepts_shape[OF run] run show ?thesis
    by (simp add: calculus_subgraph_def)
qed

text \<open>
  Claim C3 as stated, for any limit: with \<^verbatim>\<open>max_concepts = -1\<close> the slice
  \<^verbatim>\<open>sorted_concepts[:-1]\<close> drops the last of the three concepts and returns two, more
  than the limit.
\<close>

theorem expand_seeds_negative_limit_counterexample:
  "expand_seeds calculus_graph [''Gradient Descent''] 2 1 (- 1) 2
     = Inr (calculus_subgraph (take 2 calculus_concepts))
   \<and> \<not> int (length (sg_concepts (calculus_subgraph (take 2 calculus_concepts)))) \<le> - 1"
proof -
  have "expand_seeds calculus_graph [''Gradient Descent''] 2 1 (- 1) 2
     = Inr (calculus_subgraph (take 2 calculus_concepts))"
    by code_simp
  then show ?thesis by (simp add: calculus_subgraph_def calculus_concepts_def)
qed

section \<open>Claims about the stages\<close>

text \<open>
  Claim C5. Every concept produced by the peer-relation stage (\<^verbatim>\<open>_get_related_concepts\<close>,
  trails over \<^verbatim>\<open>IS_A\<close>, \<^verbatim>\<open>PART_OF\<close>, \<^verbatim>\<open>SIBLING\<close>, \<^verbatim>\<open>CONTRASTS_WITH\<close> in either direction,
  up to \<^verbatim>\<open>related_depth\<close> hops) has depth 1, whatever \<^verbatim>\<open>related_depth\<close> is and however
  many hops the trail to it has, and its \<^verbatim>\<open>relation_to_seed\<close> is the lower-cased type name
  of the relationship traversed from the seed: the first relationship of a trail from the
  concept's seed to the concept.
\<close>

theorem related_concepts_depth_and_tag:
  assumes "get_related_concepts g seed_titles related_depth = Inr related" and "c \<in> set related"
  shows "rc_depth c = 1
       \<and> (\<exists>i nxt rest. is_trail peer_step (relationships g) [] (rc_seed_concept c) ((i, nxt) # rest)
             \<and> int (length ((i, nxt) # rest)) \<le> related_depth
             \<and> snd (last ((i, nxt) # rest)) = rc_title c
             \<and> r_type (relationships g ! i) \<in> {IS_A, PART_OF, SIBLING, CONTRASTS_WITH}
             \<and> rc_relation_to_seed c = lower (type_name (r_type (relationships g ! i))))
       \<and> rc_relation_to_seed c \<in> {''is_a'', ''part_of'', ''sibling'', ''contrasts_with''}"
  using assms by (rule related_stage)

text \<open>
  The theorem at a store where \<^verbatim>\<open>C\<close> is two hops from the seed \<^verbatim>\<open>A\<close>: over \<^verbatim>\<open>B IS_A A\<close>
  and then \<^verbatim>\<open>C PART_OF B\<close>. Its depth is 1 and its tag is that of the first hop.
\<close>

theorem related_concepts_depth_and_tag_witness:
  "get_related_concepts peer_graph [''A''] 2
     = Inr [mk_concept ''B'' 1 ''is_a'' ''A'', mk_concept ''C'' 1 ''is_a'' ''A'']
   \<and> mk_concept ''C'' 1 ''is_a'' ''A'' \<in> set [mk_concept ''B'' 1 ''is_a'' ''A'', mk_concept ''C'' 1 ''is_a'' ''A'']
   \<and> rc_depth (mk_concept ''C'' 1 ''is_a'' ''A'') = 1
   \<and> rc_relation_to_seed (mk_concept ''C'' 1 ''is_a'' ''A'') \<in> {''is_a'', ''part_of'', ''sibling'', ''contrasts_with''}
   \<and> is_trail peer_step (relationships peer_graph) [] ''A'' [(0, ''B''), (1, ''C'')]"
proof -
  have run: "get_related_concepts peer_graph [''A''] 2
     = Inr [mk_concept ''B'' 1 ''is_a'' ''A'', mk_concept ''C'' 1 ''is_a'' ''A'']"
    by code_simp
  have mem: "mk_concept ''C'' 1 ''is_a'' ''A'' \<in> set [mk_concept ''B'' 1 ''is_a'' ''A'', mk_concept ''C'' 1 ''is_a'' ''A'']"
    by simp
  have trail: "is_trail peer_step (relationships peer_graph) [] ''A'' [(0, ''B''), (1, ''C'')]"
    by code_simp
  from related_concepts_depth_and_tag[OF run mem] run mem trail show ?thesis by blast
qed

text \<open>
  Claim C10. For every subgraph returned by \<^verbatim>\<open>expand_seeds\<close>: seed-stage entries carry
  depth 0 and the tag \<^verbatim>\<open>seed\<close>, prerequisite-stage entries carry a depth between 1 and
  \<^verbatim>\<open>prereq_depth\<close> and the tag \<^verbatim>\<open>prerequisite\<close>, related-stage entries carry depth 1 and
  the tag of a peer relation; the returned concepts are entries of these three lists,
  kept whole; so for every returned concept the depth is 0 exactly when the tag is
  \<^verbatim>\<open>seed\<close>.
\<close>

theorem concept_depth_matches_relation:
  assumes "expand_seeds g seed_titles prereq_depth related_depth max_concepts max_examples = Inr sg"
  shows "\<exists>prereqs related.
           get_prerequisites g seed_titles prereq_depth = Inr prereqs
         \<and> get_related_concepts g seed_titles related_depth = Inr related
         \<and> (\<forall>c \<in> set (get_seed_concepts g seed_titles). rc_depth c = 0 \<and> rc_relation_to_seed c = ''seed'')
         \<and> (\<forall>c \<in> set prereqs. 1 \<le> rc_depth c \<and> rc_depth c \<le> prereq_depth
                \<and> rc_relation_to_seed c = ''prerequisite'')
         \<and> (\<forall>c \<in> set related. rc_depth c = 1
                \<and> rc_relation_to_seed c \<in> {''is_a'', ''part_of'', ''sibling'', ''contrasts_with''})
         \<and> set (sg_concepts sg) \<subseteq> set (get_seed_concepts g seed_titles @ prereqs @ related)
         \<and> (\<forall>c \<in> set (sg_concepts sg). rc_depth c = 0 \<longleftrightarrow> rc_relation_to_seed c = ''seed'')"
proof -
  from assms obtain prereqs related where
    p: "get_prerequisites g seed_titles prereq_depth = Inr prereqs"
    and r: "get_related_concepts g seed_titles related_depth = Inr related"
    and c: "sg_concepts sg = deduplicate_concepts (get_seed_concepts g seed_titles @ prereqs @ related) max_concepts"
    by (rule expand_seeds_Inr)
  let ?S = "get_seed_concepts g seed_titles"
  have s: "\<forall>c \<in> set ?S. rc_depth c = 0 \<and> rc_relation_to_seed c = ''seed''"
    using seed_stage by blast
  have ps: "\<forall>c \<in> set prereqs. 1 \<le> rc_depth c \<and> rc_depth c \<le> prereq_depth
                \<and> rc_relation_to_seed c = ''prerequisite''"
    using prereq_stage[OF p] by blast
  have rs: "\<forall>c \<in> set related. rc_depth c = 1
                \<and> rc_relation_to_seed c \<in> {''is_a'', ''part_of'', ''sibling'', ''contrasts_with''}"
    using related_stage[OF r] by blast
  have sub: "set (sg_concepts sg) \<subseteq> set (?S @ prereqs @ related)"
    unfolding c by (rule deduplicate_subset)
  have iff: "rc_depth x = 0 \<longleftrightarrow> rc_relation_to_seed x = ''seed''" if "x \<in> set (sg_concepts sg)" for x
  proof -
    from that sub consider "x \<in> set ?S" | "x \<in> set prereqs" | "x \<in> set related" by auto
    then show ?thesis
    proof cases
      case 1 with s show ?thesis by simp
    next
      case 2 with ps have "1 \<le> rc_depth x" "rc_relation_to_seed x = ''prerequisite''" by auto
      then show ?thesis by simp
    next
      case 3 with rs have "rc_depth x = 1" "rc_relation_to_seed x \<in> {''is_a'', ''part_of'', ''sibling'', ''contrasts_with''}" by auto
      then show ?thesis by auto
    qed
  qed
  from p r s ps rs sub iff show ?thesis by blast
qed

text \<open>The theorem at the seed \<^verbatim>\<open>B\<close> of the same store, with its two peers.\<close>

theorem concept_depth_matches_relation_witness:
  "expand_seeds peer_graph [''B''] 2 1 15 2
     = Inr \<lparr>sg_seed_concepts = [''B''],
            sg_concepts = [mk_concept ''B'' 0 ''seed'' ''B'', mk_concept ''A'' 1 ''is_a'' ''B'',
                           mk_concept ''C'' 1 ''part_of'' ''B''],
            sg_resources = [], sg_examples = [], sg_prereq_chain = [[''B'']]\<rparr>
   \<and> (rc_depth (mk_concept ''B'' 0 ''seed'' ''B'') = 0)
       = (rc_relation_to_seed (mk_concept ''B'' 0 ''seed'' ''B'') = ''seed'')
   \<and> (rc_depth (mk_concept ''A'' 1 ''is_a'' ''B'') = 0)
       = (rc_relation_to_seed (mk_concept ''A'' 1 ''is_a'' ''B'') = ''seed'')
   \<and> (rc_depth (mk_concept ''C'' 1 ''part_of'' ''B'') = 0)
       = (rc_relation_to_seed (mk_concept ''C'' 1 ''part_of'' ''B'') = ''seed'')"
proof -
  have run: "expand_seeds peer_graph [''B''] 2 1 15 2
     = Inr \<lparr>sg_seed_concepts = [''B''],
            sg_concepts = [mk_concept ''B'' 0 ''seed'' ''B'', mk_concept ''A'' 1 ''is_a'' ''B'',
                           mk_concept ''C'' 1 ''part_of'' ''B''],
            sg_resources = [], sg_examples = [], sg_prereq_chain = [[''B'']]\<rparr>"
    by code_simp
  from concept_depth_matches_relation[OF run] have
    "\<forall>c \<in> set (sg_concepts \<lparr>sg_seed_concepts = [''B''],
            sg_concepts = [mk_concept ''B'' 0 ''seed'' ''B'', mk_concept ''A'' 1 ''is_a'' ''B'',
                           mk_concept ''C'' 1 ''part_of'' ''B''],
            sg_resources = [], sg_examples = [], sg_prereq_chain = [[''B'']]\<rparr>).
         rc_depth c = 0 \<longleftrightarrow> rc_relation_to_seed c = ''seed''" by blast
  then have "\<forall>c \<in> set [mk_concept ''B'' 0 ''seed'' ''B'', mk_concept ''A'' 1 ''is_a'' ''B'',
                           mk_concept ''C'' 1 ''part_of'' ''B''].
         rc_depth c = 0 \<longleftrightarrow> rc_relation_to_seed c = ''seed''" by simp
  with run show ?thesis by (simp del: One_nat_def)
qed

section \<open>Claims about the hybrid retriever\<close>

text \<open>
  Claim C7. For every query for which the semantic search returns no matches, \<^verbatim>\<open>retrieve\<close>
  returns normally a result whose semantic matches, seed concepts and ordered concepts are
  empty and whose subgraph has empty seed concepts, concepts, resources, examples and
  prerequisite chains. The result does not depend on the store or on the depths and limits:
  neither the expansion nor the ordering stage takes part.
\<close>

theorem retrieve_no_matches:
  assumes "search self query top_k_semantic min_semantic_score = []"
  shows "retrieve self query top_k_semantic min_semantic_score prereq_depth related_depth max_concepts
           max_examples_per_concept
         = Inr \<lparr>res_query = query, res_semantic_matches = [], res_seed_concepts = [],
                res_subgraph = \<lparr>sg_seed_concepts = [], sg_concepts = [], sg_resources = [],
                                sg_examples = [], sg_prereq_chain = []\<rparr>,
                res_ordered_concepts = []\<rparr>"
  using assms by (simp add: retrieve_def)

text \<open>
  The theorem at a retriever whose search finds nothing, with a prerequisite depth on
  which the expansion itself would have been rejected.
\<close>

theorem retrieve_no_matches_witness:
  "search silent_retriever ''What is a derivative?'' 5 (4 / 10) = []
   \<and> retrieve silent_retriever ''What is a derivative?'' 5 (4 / 10) (- 1) 1 15 2
       = Inr \<lparr>res_query = ''What is a derivative?'', res_semantic_matches = [], res_seed_concepts = [],
              res_subgraph = \<lparr>sg_seed_concepts = [], sg_concepts = [], sg_resources = [],
                              sg_examples = [], sg_prereq_chain = []\<rparr>,
              res_ordered_concepts = []\<rparr>
   \<and> expand_seeds (graph_retriever silent_retriever) [] (- 1) 1 15 2 = Inl CypherSyntaxError"
proof -
  have s: "search silent_retriever ''What is a derivative?'' 5 (4 / 10) = []"
    by (simp add: silent_retriever_def)
  have e: "expand_seeds (graph_retriever silent_retriever) [] (- 1) 1 15 2 = Inl CypherSyntaxError"
    by (simp add: expand_seeds_def get_prerequisites_def prereq_rows_def prereq_matches_def)
  from retrieve_no_matches[OF s] s e show ?thesis by blast
qed

text \<open>
  Claim C9. For every call to \<^verbatim>\<open>retrieve_with_explicit_concepts\<close> that returns, the seed list
  handed to the expansion is the explicit titles, in their given order, followed by the
  titles of the semantic matches that are not among the explicit titles, each once, in the
  order of the matches (the search returns them by descending score); the subgraph is the
  expansion of that seed list, the order is the topological order of its concepts, and
  the query and the matches are passed on, as in \<^verbatim>\<open>retrieve\<close>.
\<close>

theorem explicit_seeds_first:
  assumes "retrieve_with_explicit_concepts self query explicit_concepts kw = Inr result"
  shows "res_seed_concepts result
           = explicit_concepts
             @ filter (\<lambda>t. t \<notin> set explicit_concepts) (distinct_rows (map sm_title (res_semantic_matches result)))
       \<and> subseq (filter (\<lambda>t. t \<notin> set explicit_concepts) (distinct_rows (map sm_title (res_semantic_matches result))))
           (map sm_title (res_semantic_matches result))
       \<and> res_semantic_matches result
           = search self query (kwargs_get (kw_top_k_semantic kw) 3) (kwargs_get (kw_min_semantic_score kw) (4 / 10))
       \<and> res_query result = query
       \<and> expand_seeds (graph_retriever self) (res_seed_concepts result)
             (kwargs_get (kw_prereq_depth kw) 2) (kwargs_get (kw_related_depth kw) 1)
             (kwargs_get (kw_max_concepts kw) 15) (kwargs_get (kw_max_examples_per_concept kw) 2)
           = Inr (res_subgraph result)
       \<and> res_ordered_concepts result
           = get_topological_order (graph_retriever self) (sg_concepts (res_subgraph result))"
proof -
  let ?ms = "search self query (kwargs_get (kw_top_k_semantic kw) 3) (kwargs_get (kw_min_semantic_score kw) (4 / 10))"
  let ?seeds = "union_seeds explicit_concepts ?ms"
  from assms obtain sg where
    sg: "expand_seeds (graph_retriever self) ?seeds
             (kwargs_get (kw_prereq_depth kw) 2) (kwargs_get (kw_related_depth kw) 1)
             (kwargs_get (kw_max_concepts kw) 15) (kwargs_get (kw_max_examples_per_concept kw) 2) = Inr sg"
    and r: "result = \<lparr>res_query = query, res_semantic_matches = ?ms, res_seed_concepts = ?seeds,
                  res_subgraph = sg,
                  res_ordered_concepts = get_topological_order (graph_retriever self) (sg_concepts sg)\<rparr>"
    unfolding retrieve_with_explicit_concepts_def Let_def by (auto split: sum.splits)
  have sub: "subseq (filter (\<lambda>t. t \<notin> set explicit_concepts) (distinct_rows (map sm_title ?ms))) (map sm_title ?ms)"
    using subseq_distinct_rows[of "map sm_title ?ms"] subseq_filter_left[of "\<lambda>t. t \<notin> set explicit_concepts" "distinct_rows (map sm_title ?ms)"]
    by (rule subseq_order.order_trans[rotated])
  show ?thesis unfolding r using sg sub by (simp add: union_seeds_eq)
qed

text \<open>
  The theorem at explicit seeds Derivatives and Calculus with the matches Gradient Descent
  and Derivatives: only Gradient Descent is appended.
\<close>

theorem explicit_seeds_first_witness:
  "retrieve_with_explicit_concepts calculus_retriever ''q'' [''Derivatives'', ''Calculus''] no_kwargs
     = Inr explicit_result
   \<and> res_seed_concepts explicit_result
       = [''Derivatives'', ''Calculus'']
         @ filter (\<lambda>t. t \<notin> set [''Derivatives'', ''Calculus''])
             (distinct_rows (map sm_title (res_semantic_matches explicit_result)))
   \<and> map sm_title (res_semantic_matches explicit_result) = [''Gradient Descent'', ''Derivatives'']
   \<and> res_seed_concepts explicit_result = [''Derivatives'', ''Calculus'', ''Gradient Descent'']"
proof -
  have run: "retrieve_with_explicit_concepts calculus_retriever ''q'' [''Derivatives'', ''Calculus''] no_kwargs
     = Inr explicit_result"
    by code_simp
  have "map sm_title (res_semantic_matches explicit_result) = [''Gradient Descent'', ''Derivatives'']"
    "res_seed_concepts explicit_result = [''Derivatives'', ''Calculus'', ''Gradient Descent'']"
    by (simp_all add: explicit_result_def mk_match_def)
  with explicit_seeds_first[OF run] run show ?thesis by blast
qed


section \<open>Claim about the prerequisite chains\<close>

text \<open>
  Claim C6. For every \<^verbatim>\<open>expand_seeds\<close> call that returns, \<^verbatim>\<open>prereq_chain\<close> holds exactly one
  chain per seed title, in seed order. When the seed has no prerequisite path (a trail of
  1 to \<^verbatim>\<open>prereq_depth\<close> \<^verbatim>\<open>PREREQ_OF\<close> relationships from a concept to the seed concept),
  its chain is the singleton of the seed title. Otherwise its chain is the list of node
  titles along such a path that is at least as long as every other one. In both cases
  the chain ends in the seed, and each title in it is a direct prerequisite of the next.
\<close>

theorem prereq_chain_per_seed:
  assumes "expand_seeds g seed_titles prereq_depth related_depth max_concepts max_examples = Inr sg"
  shows "length (sg_prereq_chain sg) = length seed_titles
       \<and> (\<forall>i < length seed_titles.
            (\<not> (\<exists>p. prereq_path g prereq_depth (seed_titles ! i) p) \<longrightarrow> sg_prereq_chain sg ! i = [seed_titles ! i])
          \<and> ((\<exists>p. prereq_path g prereq_depth (seed_titles ! i) p) \<longrightarrow>
               (\<exists>p. prereq_path g prereq_depth (seed_titles ! i) p
                  \<and> sg_prereq_chain sg ! i = chain_titles (seed_titles ! i) p
                  \<and> (\<forall>q. prereq_path g prereq_depth (seed_titles ! i) q \<longrightarrow> length q \<le> length p)
                  \<and> length (sg_prereq_chain sg ! i) = length p + 1))
          \<and> prereq_linked g (sg_prereq_chain sg ! i)
          \<and> last (sg_prereq_chain sg ! i) = seed_titles ! i)"
proof -
  from assms have "get_prereq_chains g seed_titles prereq_depth = Inr (sg_prereq_chain sg)"
    by (rule expand_seeds_Inr)
  then have all: "list_all2 (chain_of g prereq_depth) seed_titles (sg_prereq_chain sg)"
    by (rule get_prereq_chains_all)
  then have len: "length (sg_prereq_chain sg) = length seed_titles"
    by (simp add: list_all2_lengthD)
  have "(\<not> (\<exists>p. prereq_path g prereq_depth (seed_titles ! i) p) \<longrightarrow> sg_prereq_chain sg ! i = [seed_titles ! i])
          \<and> ((\<exists>p. prereq_path g prereq_depth (seed_titles ! i) p) \<longrightarrow>
               (\<exists>p. prereq_path g prereq_depth (seed_titles ! i) p
                  \<and> sg_prereq_chain sg ! i = chain_titles (seed_titles ! i) p
                  \<and> (\<forall>q. prereq_path g prereq_depth (seed_titles ! i) q \<longrightarrow> length q \<le> length p)
                  \<and> length (sg_prereq_chain sg ! i) = length p + 1))
          \<and> prereq_linked g (sg_prereq_chain sg ! i)
          \<and> last (sg_prereq_chain sg ! i) = seed_titles ! i"
    if i: "i < length seed_titles" for i
  proof -
    let ?seed = "seed_titles ! i" and ?chain = "sg_prereq_chain sg ! i"
    from all i have c: "chain_of g prereq_depth ?seed ?chain" by (rule list_all2_nthD)
    show ?thesis
    proof (cases "\<exists>p. prereq_path g prereq_depth ?seed p")
      case False
      with c have "?chain = [?seed]" unfolding chain_of_def by blast
      with False show ?thesis by simp
    next
      case True
      with c obtain p where p: "prereq_path g prereq_depth ?seed p" "?chain = chain_titles ?seed p"
        "\<forall>q. prereq_path g prereq_depth ?seed q \<longrightarrow> length q \<le> length p"
        unfolding chain_of_def by blast
      from p(1) have "is_trail prereq_step (relationships g) [] ?seed p" unfolding prereq_path_def by blast
      then have "prereq_linked g ?chain" unfolding p(2) by (rule trail_linked)
      moreover have "last ?chain = ?seed" "length ?chain = length p + 1"
        unfolding p(2) chain_titles_def by simp_all
      ultimately show ?thesis using True p by blast
    qed
  qed
  with len show ?thesis by blast
qed

text \<open>
  The theorem at the seeds Gradient Descent, whose longest path has two hops, and
  Calculus, which has no prerequisite.
\<close>

theorem prereq_chain_per_seed_witness:
  "expand_seeds calculus_graph [''Gradient Descent'', ''Calculus''] 2 1 15 2 = Inr two_seed_subgraph
   \<and> length (sg_prereq_chain two_seed_subgraph) = length [''Gradient Descent'', ''Calculus'']
   \<and> sg_prereq_chain two_seed_subgraph = [[''Calculus'', ''Derivatives'', ''Gradient Descent''], [''Calculus'']]
   \<and> prereq_path calculus_graph 2 ''Gradient Descent'' [(0, ''Derivatives''), (1, ''Calculus'')]
   \<and> chain_titles ''Gradient Descent'' [(0, ''Derivatives''), (1, ''Calculus'')]
       = [''Calculus'', ''Derivatives'', ''Gradient Descent'']"
proof -
  have run: "expand_seeds calculus_graph [''Gradient Descent'', ''Calculus''] 2 1 15 2 = Inr two_seed_subgraph"
    by code_simp
  have "sg_prereq_chain two_seed_subgraph = [[''Calculus'', ''Derivatives'', ''Gradient Descent''], [''Calculus'']]"
    by (simp add: two_seed_subgraph_def)
  moreover have "prereq_path calculus_graph 2 ''Gradient Descent'' [(0, ''Derivatives''), (1, ''Calculus'')]"
    by code_simp
  moreover have "chain_titles ''Gradient Descent'' [(0, ''Derivatives''), (1, ''Calculus'')]
       = [''Calculus'', ''Derivatives'', ''Gradient Descent'']"
    by (simp add: chain_titles_def)
  ultimately show ?thesis using prereq_chain_per_seed[OF run] run by blast
qed


section \<open>Claim about missing properties\<close>

text \<open>
  Claim C8, as amended. A call to \<^verbatim>\<open>expand_seeds\<close> with depths that are not negative always
  returns, whatever properties the graph records lack. In the returned subgraph every
  concept comes from a concept node whose missing definition has become the empty string
  and whose missing difficulty has become \<^verbatim>\<open>unknown\<close>; every resource comes from a row whose
  missing type has become \<^verbatim>\<open>unknown\<close>; every example comes from a row whose missing type
  has become \<^verbatim>\<open>unknown\<close> and whose missing source URL has become the empty string, while
  its text is the text of the row as it is.
\<close>

theorem missing_properties_defaulted:
  "(0 \<le> prereq_depth \<longrightarrow> 0 \<le> related_depth \<longrightarrow>
      (\<exists>sg. expand_seeds g seed_titles prereq_depth related_depth max_concepts max_examples = Inr sg))
   \<and> (\<forall>sg. expand_seeds g seed_titles prereq_depth related_depth max_concepts max_examples = Inr sg \<longrightarrow>
        (\<forall>c \<in> set (sg_concepts sg). \<exists>n \<in> set (concept_nodes g). cn_title n = rc_title c
            \<and> fills (cn_definition n) [] (rc_definition c)
            \<and> fills (cn_difficulty n) ''unknown'' (rc_difficulty c))
      \<and> (\<forall>r \<in> set (sg_resources sg). \<exists>row \<in> set (resource_rows g (map rc_title (sg_concepts sg))).
            rw_url row = rr_url r \<and> fills (rw_resource_type row) ''unknown'' (rr_resource_type r))
      \<and> (\<forall>e \<in> set (sg_examples sg).
            \<exists>row \<in> set (example_rows g (map rc_title (sg_concepts sg)) max_examples).
              re_text e = ew_text row
            \<and> fills (ew_example_type row) ''unknown'' (re_example_type e)
            \<and> fills (ew_source_url row) [] (re_source_url e)))"
proof (intro conjI impI allI)
  assume "0 \<le> prereq_depth" "0 \<le> related_depth"
  then show "\<exists>sg. expand_seeds g seed_titles prereq_depth related_depth max_concepts max_examples = Inr sg"
    by (rule expand_seeds_total)
next
  fix sg
  assume run: "expand_seeds g seed_titles prereq_depth related_depth max_concepts max_examples = Inr sg"
  from run obtain prereqs related where
    p: "get_prerequisites g seed_titles prereq_depth = Inr prereqs"
    and r: "get_related_concepts g seed_titles related_depth = Inr related"
    and c: "sg_concepts sg = deduplicate_concepts (get_seed_concepts g seed_titles @ prereqs @ related) max_concepts"
    by (rule expand_seeds_Inr)
  show "\<forall>c \<in> set (sg_concepts sg). \<exists>n \<in> set (concept_nodes g). cn_title n = rc_title c
            \<and> fills (cn_definition n) [] (rc_definition c)
            \<and> fills (cn_difficulty n) ''unknown'' (rc_difficulty c)"
  proof
    fix x assume "x \<in> set (sg_concepts sg)"
    with deduplicate_subset have "x \<in> set (get_seed_concepts g seed_titles @ prereqs @ related)"
      unfolding c by blast
    then consider "x \<in> set (get_seed_concepts g seed_titles)" | "x \<in> set prereqs" | "x \<in> set related"
      by auto
    then have "\<exists>n \<in> set (concept_nodes g). cn_title n = rc_title x
           \<and> rc_definition x = or_default (cn_definition n) []
           \<and> rc_difficulty x = or_default (cn_difficulty n) ''unknown''"
      using seed_concept_node prereq_concept_node[OF p] related_concept_node[OF r] by cases blast+
    then show "\<exists>n \<in> set (concept_nodes g). cn_title n = rc_title x
            \<and> fills (cn_definition n) [] (rc_definition x)
            \<and> fills (cn_difficulty n) ''unknown'' (rc_difficulty x)"
      using fills_or_default by metis
  qed
next
  fix sg
  assume run: "expand_seeds g seed_titles prereq_depth related_depth max_concepts max_examples = Inr sg"
  then have res: "sg_resources sg = get_resources g (map rc_title (sg_concepts sg))"
    by (rule expand_seeds_Inr)
  show "\<forall>r \<in> set (sg_resources sg). \<exists>row \<in> set (resource_rows g (map rc_title (sg_concepts sg))).
            rw_url row = rr_url r \<and> fills (rw_resource_type row) ''unknown'' (rr_resource_type r)"
  proof
    fix x assume "x \<in> set (sg_resources sg)"
    then have "x \<in> set (resources_loop (resource_rows g (map rc_title (sg_concepts sg))) [])"
      unfolding res get_resources_def .
    from resources_loop_row[OF this] show "\<exists>row \<in> set (resource_rows g (map rc_title (sg_concepts sg))).
            rw_url row = rr_url x \<and> fills (rw_resource_type row) ''unknown'' (rr_resource_type x)"
      using fills_or_default by metis
  qed
next
  fix sg
  assume run: "expand_seeds g seed_titles prereq_depth related_depth max_concepts max_examples = Inr sg"
  then have ex: "sg_examples sg = get_examples g (map rc_title (sg_concepts sg)) max_examples"
    by (rule expand_seeds_Inr)
  show "\<forall>e \<in> set (sg_examples sg).
            \<exists>row \<in> set (example_rows g (map rc_title (sg_concepts sg)) max_examples).
              re_text e = ew_text row
            \<and> fills (ew_example_type row) ''unknown'' (re_example_type e)
            \<and> fills (ew_source_url row) [] (re_source_url e)"
    unfolding ex get_examples_def using fills_or_default by auto
qed

text \<open>
  The theorem at a store with one concept node, one resource and one example, none of
  which has any optional property.
\<close>

theorem missing_properties_defaulted_witness:
  "expand_seeds bare_graph [''Calculus''] 2 1 15 2 = Inr bare_subgraph
   \<and> (\<exists>n \<in> set (concept_nodes bare_graph). cn_title n = rc_title (mk_concept ''Calculus'' 0 ''seed'' ''Calculus'')
        \<and> fills (cn_definition n) [] (rc_definition (mk_concept ''Calculus'' 0 ''seed'' ''Calculus''))
        \<and> fills (cn_difficulty n) ''unknown'' (rc_difficulty (mk_concept ''Calculus'' 0 ''seed'' ''Calculus'')))
   \<and> cn_difficulty (mk_node ''Calculus'') = None
   \<and> rc_difficulty (mk_concept ''Calculus'' 0 ''seed'' ''Calculus'') = ''unknown''"
proof -
  have run: "expand_seeds bare_graph [''Calculus''] 2 1 15 2 = Inr bare_subgraph"
    by code_simp
  have mem: "mk_concept ''Calculus'' 0 ''seed'' ''Calculus'' \<in> set (sg_concepts bare_subgraph)"
    by (simp add: bare_subgraph_def)
  from missing_properties_defaulted[of 2 1 bare_graph "[''Calculus'']" 15 2] run mem
  have "\<exists>n \<in> set (concept_nodes bare_graph). cn_title n = rc_title (mk_concept ''Calculus'' 0 ''seed'' ''Calculus'')
        \<and> fills (cn_definition n) [] (rc_definition (mk_concept ''Calculus'' 0 ''seed'' ''Calculus''))
        \<and> fills (cn_difficulty n) ''unknown'' (rc_difficulty (mk_concept ''Calculus'' 0 ''seed'' ''Calculus''))"
    by blast
  moreover have "cn_difficulty (mk_node ''Calculus'') = None"
    "rc_difficulty (mk_concept ''Calculus'' 0 ''seed'' ''Calculus'') = ''unknown''"
    by (simp_all add: mk_node_def mk_concept_def)
  ultimately show ?thesis using run by blast
qed

text \<open>
  Claim C8 as stated, with the example text among the defaulted properties: the
  constructor call passes \<^verbatim>\<open>record["text"]\<close> on without \<^verbatim>\<open>or ""\<close>, so the example without a
  text comes back with no text, not with the empty string.
\<close>

theorem example_text_not_defaulted_counterexample:
  "expand_seeds bare_graph [''Calculus''] 2 1 15 2 = Inr bare_subgraph
   \<and> example_rows bare_graph [''Calculus''] 2 = [bare_example]
   \<and> ew_text bare_example = None
   \<and> map re_text (sg_examples bare_subgraph) = [None]
   \<and> map re_text (sg_examples bare_subgraph) \<noteq> [Some []]"
proof -
  have "expand_seeds bare_graph [''Calculus''] 2 1 15 2 = Inr bare_subgraph"
    by code_simp
  then show ?thesis by (simp add: bare_graph_def bare_example_def bare_subgraph_def)
qed


section \<open>Claim about the truncation\<close>

text \<open>
  Claim C4, as amended. Take the three lists as the stages build them and append them in
  the order seed, prerequisite, related. When the per-title lowest-depth deduplication
  (first seen among equals) has more than \<^verbatim>\<open>max_concepts\<close> entries and \<^verbatim>\<open>max_concepts\<close> is
  not negative, \<^verbatim>\<open>_deduplicate_concepts\<close> returns exactly \<^verbatim>\<open>max_concepts\<close> of them: the
  first ones in ascending order of depth, with seed before prerequisite before related at
  equal depth and the first seen before the later seen otherwise. Every entry kept has a
  lower depth than every entry dropped, or the same depth and a stage that does not come
  later.
\<close>

theorem deduplicate_keeps_lowest:
  assumes "stage_lists seeds prereqs related"
    and "0 \<le> max_concepts"
    and "max_concepts < int (length (lowest_per_title (seeds @ prereqs @ related)))"
  shows "deduplicate_concepts (seeds @ prereqs @ related) max_concepts
           = take (nat max_concepts)
               (sort_key (\<lambda>c. (rc_depth c, source_rank c)) (lowest_per_title (seeds @ prereqs @ related)))
       \<and> int (length (deduplicate_concepts (seeds @ prereqs @ related) max_concepts)) = max_concepts
       \<and> (\<forall>kept \<in> set (deduplicate_concepts (seeds @ prereqs @ related) max_concepts).
            \<forall>c \<in> set (lowest_per_title (seeds @ prereqs @ related))
                   - set (deduplicate_concepts (seeds @ prereqs @ related) max_concepts).
              rc_depth kept < rc_depth c
              \<or> (rc_depth kept = rc_depth c \<and> source_rank kept \<le> source_rank c))"
proof -
  let ?D = "lowest_per_title (seeds @ prereqs @ related)"
  let ?key = "\<lambda>c. (rc_depth c, source_rank c)"
  let ?ys = "sort_key ?key ?D"
  let ?n = "nat max_concepts"
  from stage_order_within_depth[OF assms(1)] have "sort_key rc_depth ?D = ?ys"
    by (rule sort_by_depth_is_priority_sort)
  with assms(2) have eq: "deduplicate_concepts (seeds @ prereqs @ related) max_concepts = take ?n ?ys"
    unfolding deduplicate_concepts_eq slice_to_def by simp
  from assms(2,3) have len: "int (length (take ?n ?ys)) = max_concepts" by simp
  have order: "rc_depth kept < rc_depth c \<or> (rc_depth kept = rc_depth c \<and> source_rank kept \<le> source_rank c)"
    if k: "kept \<in> set (take ?n ?ys)" and c: "c \<in> set ?D - set (take ?n ?ys)" for kept c
  proof -
    have "set ?D = set (take ?n ?ys) \<union> set (drop ?n ?ys)"
      by (metis append_take_drop_id set_append set_sort)
    with c have cd: "c \<in> set (drop ?n ?ys)" by blast
    have "sorted (map ?key (take ?n ?ys @ drop ?n ?ys))" by simp
    then have "\<forall>x \<in> set (take ?n ?ys). \<forall>y \<in> set (drop ?n ?ys). ?key x \<le> ?key y"
      unfolding map_append sorted_append by auto
    with k cd have "?key kept \<le> ?key c" by blast
    then show ?thesis unfolding pair_le_iff .
  qed
  from eq len order show ?thesis by simp
qed

text \<open>
  The theorem at a seed with a prerequisite and a related concept both at depth 1 and a
  budget of two: the prerequisite is kept, the related concept and the prerequisite at
  depth 2 are dropped.
\<close>

theorem deduplicate_keeps_lowest_witness:
  "get_seed_concepts tie_graph [''Gradient Descent''] = tie_seeds
   \<and> get_prerequisites tie_graph [''Gradient Descent''] 2 = Inr tie_prereqs
   \<and> get_related_concepts tie_graph [''Gradient Descent''] 1 = Inr tie_related
   \<and> stage_lists tie_seeds tie_prereqs tie_related
   \<and> (0 :: int) \<le> 2
   \<and> 2 < int (length (lowest_per_title (tie_seeds @ tie_prereqs @ tie_related)))
   \<and> deduplicate_concepts (tie_seeds @ tie_prereqs @ tie_related) 2
       = [mk_concept ''Gradient Descent'' 0 ''seed'' ''Gradient Descent'',
          mk_concept ''Derivatives'' 1 ''prerequisite'' ''Gradient Descent'']
   \<and> deduplicate_concepts (tie_seeds @ tie_prereqs @ tie_related) 2
       = take (nat 2)
           (sort_key (\<lambda>c. (rc_depth c, source_rank c)) (lowest_per_title (tie_seeds @ tie_prereqs @ tie_related)))
   \<and> int (length (deduplicate_concepts (tie_seeds @ tie_prereqs @ tie_related) 2)) = 2"
proof -
  have s: "get_seed_concepts tie_graph [''Gradient Descent''] = tie_seeds" by code_simp
  have p: "get_prerequisites tie_graph [''Gradient Descent''] 2 = Inr tie_prereqs" by code_simp
  have r: "get_related_concepts tie_graph [''Gradient Descent''] 1 = Inr tie_related" by code_simp
  from pipeline_stage_lists[OF p r] have st: "stage_lists tie_seeds tie_prereqs tie_related"
    unfolding s .
  have z: "(0 :: int) \<le> 2" by simp
  have l: "2 < int (length (lowest_per_title (tie_seeds @ tie_prereqs @ tie_related)))"
    by code_simp
  have d: "deduplicate_concepts (tie_seeds @ tie_prereqs @ tie_related) 2
       = [mk_concept ''Gradient Descent'' 0 ''seed'' ''Gradient Descent'',
          mk_concept ''Derivatives'' 1 ''prerequisite'' ''Gradient Descent'']"
    by code_simp
  from deduplicate_keeps_lowest[OF st z l] s p r st z l d show ?thesis by blast
qed

text \<open>
  Claim C4 as stated, for any \<^verbatim>\<open>max_concepts\<close> below the number of deduplicated entries:
  with \<^verbatim>\<open>max_concepts = -1\<close> the three entries exceed the limit, and the slice
  \<^verbatim>\<open>[:-1]\<close> keeps two of them.
\<close>

theorem deduplicate_negative_limit_counterexample:
  "stage_lists [mk_concept ''Gradient Descent'' 0 ''seed'' ''Gradient Descent''] tie_prereqs []
   \<and> (- 1) < int (length (lowest_per_title
                 ([mk_concept ''Gradient Descent'' 0 ''seed'' ''Gradient Descent''] @ tie_prereqs @ [])))
   \<and> deduplicate_concepts ([mk_concept ''Gradient Descent'' 0 ''seed'' ''Gradient Descent''] @ tie_prereqs @ []) (- 1)
       = [mk_concept ''Gradient Descent'' 0 ''seed'' ''Gradient Descent'',
          mk_concept ''Derivatives'' 1 ''prerequisite'' ''Gradient Descent'']
   \<and> int (length (deduplicate_concepts
                 ([mk_concept ''Gradient Descent'' 0 ''seed'' ''Gradient Descent''] @ tie_prereqs @ []) (- 1)))
       \<noteq> - 1"
proof -
  have st: "stage_lists [mk_concept ''Gradient Descent'' 0 ''seed'' ''Gradient Descent''] tie_prereqs []"
    by (simp add: stage_lists_def tie_prereqs_def mk_concept_def)
  have d: "deduplicate_concepts ([mk_concept ''Gradient Descent'' 0 ''seed'' ''Gradient Descent''] @ tie_prereqs @ []) (- 1)
       = [mk_concept ''Gradient Descent'' 0 ''seed'' ''Gradient Descent'',
          mk_concept ''Derivatives'' 1 ''prerequisite'' ''Gradient Descent'']"
    by code_simp
  from st d show ?thesis by simp
qed


end
